theory Spec2Isabelle
  imports Complex_Main "HOL-Library.Log_Nat"
begin

section \<open>Numbers\<close>

text \<open>
  The component computes with JavaScript numbers, which are IEEE 754 binary64 values. A
  number is a real that such a value denotes, one of the two infinities, or \<open>NaN\<close>;
  the sign of zero plays no part in this code and is left out. An operation gives the
  exact result rounded to the nearest value with 53 significant bits, ties going to the
  even significand; the exponent ranges from -1022, below which the spacing of the
  values stays the same, to 1023, above which the result is an infinity.
\<close>

datatype number = Num real | PosInf | NegInf | NaN

text \<open>For \<open>x > 0\<close>, the integer \<open>e\<close> with \<open>2 powi e \<le> x < 2 powi (e + 1)\<close>.\<close>

definition expo :: "real \<Rightarrow> int" where
  "expo x = (if 1 \<le> x then bitlen \<lfloor>x\<rfloor> - 1 else - bitlen (\<lceil>1 / x\<rceil> - 1))"

text \<open>The exponent a binary64 value of the magnitude of \<open>x\<close> has, and its spacing there.\<close>

definition dexp :: "real \<Rightarrow> int" where
  "dexp x = max (expo \<bar>x\<bar>) (- 1022)"

definition ulp :: "real \<Rightarrow> real" where
  "ulp x = 2 powi (dexp x - 52)"

text \<open>The nearest integer, ties to even.\<close>

definition rne :: "real \<Rightarrow> int" where
  "rne y =
     (let f = \<lfloor>y\<rfloor>; d = y - of_int f
      in if d < 1 / 2 then f else if 1 / 2 < d then f + 1 else if even f then f else f + 1)"

definition rnd :: "real \<Rightarrow> real" where
  "rnd x = ulp x * of_int (rne (x / ulp x))"

definition max_double :: real where
  "max_double = (2 ^ 53 - 1) * 2 ^ 971"

text \<open>The number that an operation with exact result \<open>x\<close> returns.\<close>

definition fl :: "real \<Rightarrow> number" where
  "fl x =
     (let r = rnd x
      in if max_double < r then PosInf else if r < - max_double then NegInf else Num r)"

text \<open>\<open>a + b\<close> and \<open>a < b\<close> on numbers.\<close>

fun js_add :: "number \<Rightarrow> number \<Rightarrow> number" where
  "js_add (Num a) (Num b) = fl (a + b)"
| "js_add NaN _ = NaN"
| "js_add _ NaN = NaN"
| "js_add PosInf NegInf = NaN"
| "js_add NegInf PosInf = NaN"
| "js_add PosInf _ = PosInf"
| "js_add _ PosInf = PosInf"
| "js_add NegInf _ = NegInf"
| "js_add _ NegInf = NegInf"

fun js_lt :: "number \<Rightarrow> number \<Rightarrow> bool" where
  "js_lt (Num a) (Num b) = (a < b)"
| "js_lt NaN _ = False"
| "js_lt _ NaN = False"
| "js_lt NegInf b = (b \<noteq> NegInf)"
| "js_lt a PosInf = (a \<noteq> PosInf)"
| "js_lt _ _ = False"

section \<open>Arrays\<close>

text \<open>
  An array is its list of slots, where \<open>None\<close> is a hole (read as \<open>undefined\<close>),
  together with the properties written under negative integer keys: such a write does
  not touch the slots or the length, and is read back under the same key.
\<close>

record 'v jsarray =
  elems :: "'v option list"
  props :: "int \<Rightarrow> 'v option"

definition array_of :: "'v list \<Rightarrow> 'v jsarray" where
  "array_of xs = \<lparr>elems = map Some xs, props = (\<lambda>_. None)\<rparr>"

text \<open>\<open>a[i]\<close>: \<open>None\<close> stands for \<open>undefined\<close>.\<close>

definition arr_get :: "'v jsarray \<Rightarrow> int \<Rightarrow> 'v option" where
  "arr_get a i =
     (if i < 0 then props a i
      else if i < int (length (elems a)) then elems a ! nat i
      else None)"

text \<open>\<open>a[i] = v\<close>: a write at or past the length extends the array, leaving holes.\<close>

definition arr_set :: "'v jsarray \<Rightarrow> int \<Rightarrow> 'v \<Rightarrow> 'v jsarray" where
  "arr_set a i v =
     (if i < 0 then a\<lparr>props := (props a)(i := Some v)\<rparr>
      else if i < int (length (elems a)) then a\<lparr>elems := (elems a)[nat i := Some v]\<rparr>
      else a\<lparr>elems := elems a @ replicate (nat i - length (elems a)) None @ [Some v]\<rparr>)"

text \<open>\<open>xs.slice(b, e)\<close> for integer arguments.\<close>

definition slice :: "'a list \<Rightarrow> int \<Rightarrow> int \<Rightarrow> 'a list" where
  "slice xs b e =
     (let n = int (length xs);
          k = (if b < 0 then max (n + b) 0 else min b n);
          f = (if e < 0 then max (n + e) 0 else min e n)
      in take (nat (f - k)) (drop (nat k) xs))"

text \<open>
  \<open>top += height\<close>, where \<open>height\<close> is a stored height or, read from a hole,
  \<open>undefined\<close>, which added to a number gives \<open>NaN\<close>.
\<close>

fun add_height :: "number \<Rightarrow> real option \<Rightarrow> number" where
  "add_height t (Some h) = js_add t (Num h)"
| "add_height t None = NaN"

text \<open>\<open>x || 0\<close> on a number or \<open>undefined\<close>: zero and \<open>NaN\<close> are falsy.\<close>

fun or_zero :: "number option \<Rightarrow> number" where
  "or_zero None = Num 0"
| "or_zero (Some NaN) = Num 0"
| "or_zero (Some (Num r)) = (if r = 0 then Num 0 else Num r)"
| "or_zero (Some PosInf) = PosInf"
| "or_zero (Some NegInf) = NegInf"

section \<open>The component state\<close>

text \<open>
  The fields of \<open>ListineVirtualScrollComponent\<close> that the scroll arithmetic reads or
  writes. \<open>buffer\<close> is an integer count; the heights, \<open>viewportHeight\<close> and the
  scroll position are finite numbers. What the component does to its collaborators
  is kept as logs: \<open>observed\<close> lists the rendered elements (by position in
  \<open>itemElements\<close>) handed to \<open>resizeObserver.observe\<close>, \<open>emitted\<close> the values sent
  through \<open>scrollEmitter\<close>. Callbacks deferred with \<open>setTimeout\<close> run later, as
  calls of their own, and change detection is left out.
\<close>

record 'a component =
  items :: "'a list"
  viewportHeight :: real
  buffer :: int
  initialItemHeight :: real
  itemHeights :: "real jsarray"
  itemTops :: "number list"
  totalContentHeight :: number
  visibleStart :: int
  visibleEnd :: int
  visibleItems :: "'a list"
  observed :: "nat list"
  emitted :: "real list"

text \<open>
  The constructor with the field initialisers of the class; its two injected services
  are not modelled, so the argument carries nothing.
\<close>

definition new_component :: "unit \<Rightarrow> 'a component" where
  "new_component services =
     \<lparr>items = [], viewportHeight = 400, buffer = 5, initialItemHeight = 50,
      itemHeights = array_of [], itemTops = [], totalContentHeight = Num 0,
      visibleStart = 0, visibleEnd = 0, visibleItems = [], observed = [], emitted = []\<rparr>"

section \<open>Offsets\<close>

text \<open>
  The \<open>for ... of\<close> loop of \<open>updateItemTops\<close>, with its two variables
  (\<open>top'\<close> is the source's \<open>top\<close>, \<open>end'\<close> below its \<open>end\<close>).
\<close>

fun tops_loop :: "real option list \<Rightarrow> number list \<Rightarrow> number \<Rightarrow> number list \<times> number" where
  "tops_loop [] tops top' = (tops, top')"
| "tops_loop (height # rest) tops top' =
     tops_loop rest (tops @ [top']) (add_height top' height)"

definition updateItemTops :: "'a component \<Rightarrow> 'a component" where
  "updateItemTops c =
     (case tops_loop (elems (itemHeights c)) [] (Num 0) of
        (tops, top') \<Rightarrow> c\<lparr>itemTops := tops, totalContentHeight := top'\<rparr>)"

definition initializeHeights :: "'a component \<Rightarrow> 'a component" where
  "initializeHeights c =
     updateItemTops (c\<lparr>itemHeights := array_of (map (\<lambda>_. initialItemHeight c) (items c))\<rparr>)"

definition calculateHeights :: "'a component \<Rightarrow> 'a component" where
  "calculateHeights c = updateItemTops c"

text \<open>\<open>this.itemTops[index] || 0\<close>; \<open>itemTops\<close> is only ever filled by \<open>push\<close>.\<close>

definition getItemTop :: "'a component \<Rightarrow> int \<Rightarrow> number" where
  "getItemTop c index =
     or_zero (if 0 \<le> index \<and> index < int (length (itemTops c))
              then Some (itemTops c ! nat index) else None)"

section \<open>Measuring rendered elements\<close>

text \<open>
  The callback of \<open>itemElements.forEach\<close>. A rendered element is given by its position
  \<open>idx\<close> among the rendered elements and its \<open>offsetHeight\<close>; \<open>measureItemHeights\<close>
  takes the heights of the rendered elements in their order.
\<close>

definition measure_element :: "nat \<times> real \<Rightarrow> 'a component \<Rightarrow> 'a component" where
  "measure_element el c =
     (let idx = fst el;
          index = visibleStart c + int idx;
          height = snd el
      in if arr_get (itemHeights c) index \<noteq> Some height
         then c\<lparr>itemHeights := arr_set (itemHeights c) index height,
                observed := observed c @ [idx]\<rparr>
         else c)"

definition measureItemHeights :: "real list \<Rightarrow> 'a component \<Rightarrow> 'a component" where
  "measureItemHeights els c = updateItemTops (fold measure_element (enumerate 0 els) c)"

section \<open>Scrolling\<close>

text \<open>The two \<open>while\<close> loops of \<open>onScroll\<close>, each on its loop variable.\<close>

function start_loop :: "'a component \<Rightarrow> real \<Rightarrow> nat \<Rightarrow> nat" where
  "start_loop c scrollTop start =
     (if start < length (items c) \<and> js_lt (getItemTop c (int start + 1)) (Num scrollTop)
      then start_loop c scrollTop (start + 1) else start)"
  by pat_completeness auto
termination
  by (relation "measure (\<lambda>(c, scrollTop, start). length (items c) - start)") auto

function end_loop :: "'a component \<Rightarrow> number \<Rightarrow> nat \<Rightarrow> nat" where
  "end_loop c viewportBottom end' =
     (if end' < length (items c) \<and> js_lt (getItemTop c (int end')) viewportBottom
      then end_loop c viewportBottom (end' + 1) else end')"
  by pat_completeness auto
termination
  by (relation "measure (\<lambda>(c, viewportBottom, end'). length (items c) - end')") auto

definition updateVisibleItems :: "'a component \<Rightarrow> 'a component" where
  "updateVisibleItems c = c\<lparr>visibleItems := slice (items c) (visibleStart c) (visibleEnd c)\<rparr>"

text \<open>
  \<open>onScroll\<close>: \<open>scrollTop\<close> is read from the scroller element and \<open>els\<close> are the
  heights of the elements rendered at that moment.
\<close>

definition onScroll :: "real \<Rightarrow> real list \<Rightarrow> 'a component \<Rightarrow> 'a component" where
  "onScroll scrollTop els c =
     (let viewportBottom = js_add (Num scrollTop) (Num (viewportHeight c));
          start = start_loop c scrollTop 0;
          end' = end_loop c viewportBottom start;
          c1 = c\<lparr>visibleStart := max 0 (int start - buffer c),
                 visibleEnd := min (int (length (items c))) (int end' + buffer c)\<rparr>;
          c2 = measureItemHeights els c1;
          c3 = updateVisibleItems c2
      in c3\<lparr>emitted := emitted c3 @ [scrollTop]\<rparr>)"

text \<open>
  The lifecycle hooks, as far as they run at once: \<open>ngOnInit\<close>, and \<open>ngOnChanges\<close>
  when \<open>items\<close> is rebound. What they and \<open>ngAfterViewInit\<close> defer is
  \<open>calculateHeights\<close> followed by \<open>onScroll\<close>.
\<close>

definition ngOnInit :: "'a component \<Rightarrow> 'a component" where
  "ngOnInit c = initializeHeights c"

definition ngOnChanges :: "'a list \<Rightarrow> 'a component \<Rightarrow> 'a component" where
  "ngOnChanges new_items c = initializeHeights (c\<lparr>items := new_items\<rparr>)"

section \<open>Notions of the specification\<close>

text \<open>
  The specification's reconciler reports whether any height changed. The method has no
  result; what it does on the overwriting branch, and only there, is to hand the element
  to the observer, so a run changed a height exactly when it added to that log.
\<close>

definition changed :: "real list \<Rightarrow> 'a component \<Rightarrow> bool" where
  "changed els c = (observed (measureItemHeights els c) \<noteq> observed c)"

text \<open>
  The extent \<open>[top, top + height)\<close> of item \<open>i\<close> meets the viewport interval
  \<open>[scrollTop, scrollTop + viewportHeight)\<close>.
\<close>

definition intersects_viewport :: "'a component \<Rightarrow> real \<Rightarrow> int \<Rightarrow> bool" where
  "intersects_viewport c scrollTop i =
     (case (arr_get (itemHeights c) i, getItemTop c i) of
        (Some h, Num t) \<Rightarrow> max t scrollTop < min (t + h) (scrollTop + viewportHeight c)
      | _ \<Rightarrow> False)"

text \<open>The real \<open>x\<close> is a binary64 value: rounding leaves it as it is.\<close>

definition is_double :: "real \<Rightarrow> bool" where
  "is_double x = (fl x = Num x)"

section \<open>Two histories of the component\<close>

text \<open>
  Two items with no buffer: both are rendered at the top of the list and measured, the
  second one taller than the viewport.
\<close>

definition tall_last_item :: "unit component" where
  "tall_last_item =
     measureItemHeights [50, 500]
       (onScroll 0 [] (ngOnChanges [(), ()] ((new_component ())\<lparr>buffer := 0\<rparr>)))"

text \<open>
  Three items in a viewport of 40 with a buffer of one, scrolled to the bottom, so that
  only the last item is rendered; the list is then replaced by a single item, and the
  element still on screen is measured before the deferred \<open>onScroll\<close> runs.
\<close>

definition list_shrunk_while_scrolled :: "unit component" where
  "list_shrunk_while_scrolled =
     measureItemHeights [20]
       (ngOnChanges [()]
         (onScroll 110 []
           (ngOnChanges [(), (), ()]
             ((new_component ())\<lparr>buffer := 1, viewportHeight := 40\<rparr>))))"

text \<open>
  Heights at which additions round: \<open>2\<^sup>5\<^sup>3 + 1\<close> is not a binary64 value and rounds
  back to \<open>2\<^sup>5\<^sup>3\<close>.
\<close>

definition absorbed_heights :: "unit component" where
  "absorbed_heights =
     updateItemTops
       ((new_component ())\<lparr>itemHeights := array_of [9007199254740992, 1, 1]\<rparr>)"

definition absorbed_last_height :: "unit component" where
  "absorbed_last_height =
     updateItemTops
       ((new_component ())\<lparr>items := [(), ()], buffer := 0,
          itemHeights := array_of [9007199254740992, 1]\<rparr>)"

section \<open>Facts about rounding\<close>

lemma pow2_less_cancel: "(2::real) powi a < 2 powi b \<Longrightarrow> a < b"
  using power_int_increasing [of b a "2::real"] by (cases "a < b") simp_all

lemma pow2_le_cancel: "(2::real) powi a \<le> 2 powi b \<Longrightarrow> a \<le> b"
  using power_int_strict_increasing [of b a "2::real"] by (cases "a \<le> b") simp_all

lemma pow2_mono: "a \<le> b \<Longrightarrow> (2::real) powi a \<le> 2 powi b"
  by (rule power_int_increasing) simp_all

lemma expo_bounds:
  assumes "0 < x"
  shows "2 powi expo x \<le> x" and "x < 2 powi (expo x + 1)"
proof -
  have "2 powi expo x \<le> x \<and> x < 2 powi (expo x + 1)"
  proof (cases "1 \<le> x")
    case True
    let ?n = "\<lfloor>x\<rfloor>"
    have n: "0 < ?n" using True by simp
    from bitlen_bounds [OF n]
    have lo: "2 ^ nat (bitlen ?n - 1) \<le> ?n" and hi: "?n < 2 ^ nat (bitlen ?n)" by simp_all
    have b: "1 \<le> bitlen ?n" using n bitlen_eq_zero_iff [of ?n] bitlen_nonneg [of ?n] by linarith
    have e: "expo x = bitlen ?n - 1" using True by (simp add: expo_def)
    have "2 powi (bitlen ?n - 1) = (2::real) ^ nat (bitlen ?n - 1)"
      using b by (simp add: power_int_def)
    also have "\<dots> = of_int (2 ^ nat (bitlen ?n - 1))" by simp
    also have "\<dots> \<le> of_int ?n" using lo by (simp only: of_int_le_iff)
    also have "\<dots> \<le> x" by simp
    finally have 1: "2 powi expo x \<le> x" using e by simp
    have "?n + 1 \<le> 2 ^ nat (bitlen ?n)" using hi by simp
    then have "of_int (?n + 1) \<le> (of_int (2 ^ nat (bitlen ?n)) :: real)"
      by (simp only: of_int_le_iff)
    moreover have "x < of_int (?n + 1)" by linarith
    ultimately have "x < of_int (2 ^ nat (bitlen ?n))" by linarith
    then have "x < 2 ^ nat (bitlen ?n)" by simp
    also have "\<dots> = 2 powi (bitlen ?n)" using b by (simp add: power_int_def)
    finally have "x < 2 powi (expo x + 1)" using e by simp
    with 1 show ?thesis by simp
  next
    case False
    let ?y = "1 / x"
    let ?m = "\<lceil>?y\<rceil> - 1"
    have y: "1 < ?y" using False assms by simp
    then have m: "0 < ?m" by linarith
    from bitlen_bounds [OF m]
    have lo: "2 ^ nat (bitlen ?m - 1) \<le> ?m" and hi: "?m < 2 ^ nat (bitlen ?m)" by simp_all
    have b: "1 \<le> bitlen ?m" using m bitlen_eq_zero_iff [of ?m] bitlen_nonneg [of ?m] by linarith
    have e: "expo x = - bitlen ?m" using False by (simp add: expo_def)
    have "\<lceil>?y\<rceil> \<le> 2 ^ nat (bitlen ?m)" using hi by simp
    then have "of_int \<lceil>?y\<rceil> \<le> (of_int (2 ^ nat (bitlen ?m)) :: real)"
      by (simp only: of_int_le_iff)
    then have "?y \<le> of_int (2 ^ nat (bitlen ?m))" using le_of_int_ceiling [of ?y] by linarith
    then have "?y \<le> 2 ^ nat (bitlen ?m)" by simp
    then have "1 / 2 ^ nat (bitlen ?m) \<le> x"
      using assms by (simp add: field_simps)
    moreover have "2 powi (- bitlen ?m) = 1 / (2::real) ^ nat (bitlen ?m)"
      using b by (simp add: power_int_def field_simps)
    ultimately have 1: "2 powi expo x \<le> x" using e by simp
    have "(of_int (2 ^ nat (bitlen ?m - 1)) :: real) \<le> of_int ?m"
      using lo by (simp only: of_int_le_iff)
    moreover have "of_int ?m < ?y" by linarith
    ultimately have "of_int (2 ^ nat (bitlen ?m - 1)) < ?y" by linarith
    then have "2 ^ nat (bitlen ?m - 1) < ?y" by simp
    then have "x < 1 / 2 ^ nat (bitlen ?m - 1)"
      using assms by (simp add: field_simps)
    moreover have "2 powi (- bitlen ?m + 1) = 1 / (2::real) ^ nat (bitlen ?m - 1)"
    proof (cases "bitlen ?m = 1")
      case True
      then show ?thesis by simp
    next
      case False
      then have "- bitlen ?m + 1 < 0" using b by simp
      then show ?thesis
        using b by (simp add: power_int_def field_simps)
    qed
    ultimately have "x < 2 powi (expo x + 1)" using e by simp
    with 1 show ?thesis by simp
  qed
  then show "2 powi expo x \<le> x" and "x < 2 powi (expo x + 1)" by simp_all
qed

lemma expo_unique:
  assumes "0 < x" and "2 powi k \<le> x" and "x < 2 powi (k + 1)"
  shows "expo x = k"
proof -
  have "(2::real) powi k < 2 powi (expo x + 1)"
    using assms(2) expo_bounds(2) [OF assms(1)] by simp
  then have "k < expo x + 1" by (rule pow2_less_cancel)
  moreover have "(2::real) powi expo x < 2 powi (k + 1)"
    using assms(3) expo_bounds(1) [OF assms(1)] by simp
  then have "expo x < k + 1" by (rule pow2_less_cancel)
  ultimately show ?thesis by simp
qed

lemma expo_mono:
  assumes "0 < x" and "x \<le> y"
  shows "expo x \<le> expo y"
proof -
  have "(2::real) powi expo x < 2 powi (expo y + 1)"
    using expo_bounds(1) [OF assms(1)] expo_bounds(2) [of y] assms by simp
  then have "expo x < expo y + 1" by (rule pow2_less_cancel)
  then show ?thesis by simp
qed


lemma rne_of_int [simp]: "rne (of_int n) = n"
  by (simp add: rne_def)

lemma rne_bounds: "\<lfloor>y\<rfloor> \<le> rne y" "rne y \<le> \<lfloor>y\<rfloor> + 1"
  by (simp_all add: rne_def Let_def)

lemma rne_mono:
  assumes "a \<le> b"
  shows "rne a \<le> rne b"
proof (cases "\<lfloor>a\<rfloor> = \<lfloor>b\<rfloor>")
  case True
  then show ?thesis using assms by (auto simp: rne_def Let_def)
next
  case False
  then have "\<lfloor>a\<rfloor> + 1 \<le> \<lfloor>b\<rfloor>" using floor_mono [OF assms] by simp
  then show ?thesis using rne_bounds(2) [of a] rne_bounds(1) [of b] by simp
qed

lemma rne_minus: "rne (- y) = - rne y"
proof (cases "y = of_int \<lfloor>y\<rfloor>")
  case True
  have "rne (of_int (- \<lfloor>y\<rfloor>)) = - \<lfloor>y\<rfloor>" by (rule rne_of_int)
  then have "rne (- of_int \<lfloor>y\<rfloor>) = - rne (of_int \<lfloor>y\<rfloor>)" by simp
  then show ?thesis using True by metis
next
  case False
  then have lt: "of_int \<lfloor>y\<rfloor> < y" by (metis less_le of_int_floor_le)
  have fl: "\<lfloor>- y\<rfloor> = - \<lfloor>y\<rfloor> - 1"
  proof (rule floor_unique)
    show "of_int (- \<lfloor>y\<rfloor> - 1) \<le> - y" by (simp; linarith)
    show "- y < of_int (- \<lfloor>y\<rfloor> - 1) + 1" using lt by simp
  qed
  show ?thesis
    unfolding rne_def Let_def fl using lt by (auto simp: field_simps)
qed

lemma rne_ge: "of_int m \<le> y \<Longrightarrow> m \<le> rne y"
  using rne_mono [of "of_int m" y] by simp

lemma rne_le: "y \<le> of_int m \<Longrightarrow> rne y \<le> m"
  using rne_mono [of y "of_int m"] by simp

lemma ulp_pos [simp]: "0 < ulp x"
  by (simp add: ulp_def)

lemma ulp_neq0 [simp]: "ulp x \<noteq> 0"
  by (metis ulp_pos less_irrefl)

lemma ulp_nonneg [simp]: "0 \<le> ulp x"
  by (rule less_imp_le [OF ulp_pos])

lemma ulp_minus [simp]: "ulp (- x) = ulp x"
  by (simp add: ulp_def dexp_def)

lemma rnd_minus: "rnd (- x) = - rnd x"
  by (simp add: rnd_def rne_minus)

lemma rnd_zero [simp]: "rnd 0 = 0"
  by (simp add: rnd_def rne_def)

lemma rnd_fixed:
  assumes "x / ulp x = of_int k"
  shows "rnd x = x"
proof -
  have "rnd x = ulp x * (x / ulp x)" unfolding rnd_def assms by simp
  then show ?thesis by simp
qed



lemma pow2_add: "(2::real) powi a * 2 powi b = 2 powi (a + b)"
  by (simp add: power_int_add)

lemma pow2_diff: "(2::real) powi a / 2 powi b = 2 powi (a - b)"
  by (simp add: power_int_diff)

lemma rnd_nonneg:
  assumes "0 \<le> x"
  shows "0 \<le> rnd x"
proof -
  have "0 \<le> rne (x / ulp x)" using assms by (intro rne_ge) simp
  then show ?thesis unfolding rnd_def by (intro mult_nonneg_nonneg) simp_all
qed

lemma rnd_upper:
  assumes "0 < x"
  shows "rnd x \<le> 2 powi (dexp x + 1)"
proof -
  have "x < 2 powi (expo x + 1)" using expo_bounds(2) [OF assms] .
  also have "\<dots> \<le> 2 powi (dexp x + 1)" using assms by (intro pow2_mono) (simp add: dexp_def)
  finally have "x / ulp x < 2 powi (dexp x + 1) / 2 powi (dexp x - 52)"
    by (simp add: ulp_def divide_strict_right_mono)
  also have "\<dots> = 2 powi 53" by (subst pow2_diff) simp
  finally have "x / ulp x \<le> of_int (2 ^ 53)" by simp
  then have "rne (x / ulp x) \<le> 2 ^ 53" by (rule rne_le)
  then have "of_int (rne (x / ulp x)) \<le> (of_int (2 ^ 53) :: real)" by (simp only: of_int_le_iff)
  then have "rnd x \<le> 2 powi (dexp x - 52) * 2 powi 53"
    by (simp add: rnd_def ulp_def)
  also have "\<dots> = 2 powi (dexp x + 1)" by (subst pow2_add) (simp add: add.commute)
  finally show ?thesis .
qed

lemma rnd_lower:
  assumes "0 < x" and "- 1022 \<le> expo x"
  shows "2 powi dexp x \<le> rnd x"
proof -
  have e: "dexp x = expo x" using assms by (simp add: dexp_def)
  have "2 powi dexp x \<le> x" using expo_bounds(1) [OF assms(1)] e by simp
  then have "2 powi dexp x / 2 powi (dexp x - 52) \<le> x / ulp x"
    by (simp add: ulp_def divide_right_mono)
  moreover have "2 powi dexp x / 2 powi (dexp x - 52) = (2::real) powi 52"
    by (subst pow2_diff) simp
  ultimately have "of_int (2 ^ 52) \<le> x / ulp x" by simp
  then have "2 ^ 52 \<le> rne (x / ulp x)" by (rule rne_ge)
  then have "(of_int (2 ^ 52) :: real) \<le> of_int (rne (x / ulp x))" by (simp only: of_int_le_iff)
  then have "2 powi (dexp x - 52) * 2 powi 52 \<le> rnd x"
    by (simp add: rnd_def ulp_def)
  moreover have "2 powi (dexp x - 52) * 2 powi 52 = (2::real) powi dexp x"
    by (subst pow2_add) simp
  ultimately show ?thesis by simp
qed

lemma dexp_mono: "0 < x \<Longrightarrow> x \<le> y \<Longrightarrow> dexp x \<le> dexp y"
  using expo_mono [of x y] by (simp add: dexp_def)

lemma rnd_mono_pos:
  assumes "0 < x" and "x \<le> y"
  shows "rnd x \<le> rnd y"
proof (cases "dexp x = dexp y")
  case True
  then have u: "ulp x = ulp y" by (simp add: ulp_def)
  have "x / ulp y \<le> y / ulp y" using assms(2) by (simp add: divide_right_mono)
  then have "rne (x / ulp y) \<le> rne (y / ulp y)" by (rule rne_mono)
  then show ?thesis by (simp add: rnd_def u)
next
  case False
  then have lt: "dexp x + 1 \<le> dexp y" using dexp_mono [OF assms] by simp
  then have "- 1022 < dexp y" by (simp add: dexp_def)
  then have "- 1022 \<le> expo y" using assms by (simp add: dexp_def)
  then have "2 powi dexp y \<le> rnd y" using assms by (intro rnd_lower) simp_all
  moreover have "rnd x \<le> 2 powi (dexp x + 1)" using assms(1) by (rule rnd_upper)
  moreover have "(2::real) powi (dexp x + 1) \<le> 2 powi dexp y" using lt by (rule pow2_mono)
  ultimately show ?thesis by simp
qed

lemma rnd_mono:
  assumes "x \<le> y"
  shows "rnd x \<le> rnd y"
proof -
  consider "0 < x" | "x \<le> 0" "0 \<le> y" | "y < 0" by linarith
  then show ?thesis
  proof cases
    case 1
    then show ?thesis using assms by (rule rnd_mono_pos)
  next
    case 2
    then have "rnd x \<le> 0" using rnd_nonneg [of "- x"] by (simp add: rnd_minus)
    moreover have "0 \<le> rnd y" using 2 by (intro rnd_nonneg)
    ultimately show ?thesis by simp
  next
    case 3
    then have "rnd (- y) \<le> rnd (- x)" using assms by (intro rnd_mono_pos) simp_all
    then show ?thesis by (simp add: rnd_minus)
  qed
qed


lemma rnd_idem_pos:
  assumes "0 < x"
  shows "rnd (rnd x) = rnd x"
proof -
  let ?d = "rnd x"
  let ?m = "rne (x / ulp x)"
  have d: "?d = 2 powi (dexp x - 52) * of_int ?m" by (simp add: rnd_def ulp_def)
  have E: "- 1022 \<le> dexp x" by (simp add: dexp_def)
  have nonneg: "0 \<le> ?d" using assms by (intro rnd_nonneg) simp
  have upper: "?d \<le> 2 powi (dexp x + 1)" using assms by (rule rnd_upper)
  consider "?d = 0" | "?d = 2 powi (dexp x + 1)" | "0 < ?d" "?d < 2 powi (dexp x + 1)"
    using nonneg upper by linarith
  then show ?thesis
  proof cases
    case 1
    then show ?thesis by simp
  next
    case 2
    have "(2::real) powi (dexp x + 1) < 2 powi (dexp x + 1 + 1)"
      by (intro power_int_strict_increasing) simp_all
    then have "expo ?d = dexp x + 1" using 2 by (intro expo_unique) simp_all
    then have "dexp ?d = dexp x + 1" using E 2 by (simp add: dexp_def)
    then have "?d / ulp ?d = 2 powi (dexp x + 1) / 2 powi (dexp x + 1 - 52)"
      using 2 by (simp add: ulp_def)
    also have "\<dots> = 2 powi 52" by (subst pow2_diff) simp
    also have "\<dots> = of_int (2 ^ 52)" by simp
    finally show ?thesis by (rule rnd_fixed)
  next
    case 3
    have "(2::real) powi expo ?d < 2 powi (dexp x + 1)"
      using expo_bounds(1) [OF 3(1)] 3(2) by simp
    then have le: "expo ?d \<le> dexp x" using pow2_less_cancel by fastforce
    have "dexp ?d = dexp x"
    proof (cases "- 1022 \<le> expo x")
      case True
      then have "2 powi dexp x \<le> ?d" using assms by (intro rnd_lower)
      then have "expo ?d = dexp x" using 3 by (intro expo_unique) simp_all
      then show ?thesis using E 3 by (simp add: dexp_def)
    next
      case False
      then have "dexp x = - 1022" using assms by (simp add: dexp_def)
      then show ?thesis using le 3 by (simp add: dexp_def)
    qed
    then have "?d / ulp ?d = of_int ?m" by (simp add: ulp_def d)
    then show ?thesis by (rule rnd_fixed)
  qed
qed

lemma rnd_idem [simp]: "rnd (rnd x) = rnd x"
proof -
  consider "0 < x" | "x = 0" | "x < 0" by linarith
  then show ?thesis
  proof cases
    case 1
    then show ?thesis by (rule rnd_idem_pos)
  next
    case 2
    then show ?thesis by simp
  next
    case 3
    then have "rnd (rnd (- x)) = rnd (- x)" by (intro rnd_idem_pos) simp
    then show ?thesis by (simp add: rnd_minus)
  qed
qed

lemma rnd_of_int_pos:
  assumes "0 < n" and "n \<le> 2 ^ 53"
  shows "rnd (of_int n) = of_int n"
proof -
  let ?x = "of_int n :: real"
  have x: "0 < ?x" using assms by simp
  have "(2::real) powi 0 \<le> ?x" using assms by simp
  also have "?x < 2 powi (expo ?x + 1)" using expo_bounds(2) [OF x] .
  finally have "0 < expo ?x + 1" by (rule pow2_less_cancel)
  then have e0: "0 \<le> expo ?x" by simp
  then have E: "dexp ?x = expo ?x" using x by (simp add: dexp_def)
  have "2 powi expo ?x \<le> ?x" using expo_bounds(1) [OF x] .
  also have "?x \<le> of_int (2 ^ 53)" using assms(2) by (simp only: of_int_le_iff)
  also have "\<dots> = (2::real) powi 53" by simp
  finally have e53: "expo ?x \<le> 53" by (rule pow2_le_cancel)
  show ?thesis
  proof (cases "expo ?x = 53")
    case True
    then have "(2::real) powi 53 \<le> ?x" using expo_bounds(1) [OF x] by simp
    moreover have "?x \<le> of_int (2 ^ 53)" using assms(2) by (simp only: of_int_le_iff)
    ultimately have eq: "?x = 2 powi 53" by simp
    have "?x / ulp ?x = 2 powi 53 / 2 powi (53 - 52)"
      using True E eq by (simp add: ulp_def)
    also have "\<dots> = of_int (2 ^ 52)" by simp
    finally show ?thesis by (rule rnd_fixed)
  next
    case False
    then have k: "0 \<le> 52 - expo ?x" using e53 by simp
    have "?x / ulp ?x = ?x * 2 powi (52 - expo ?x)"
      by (simp add: ulp_def E power_int_diff field_simps)
    also have "\<dots> = ?x * 2 ^ nat (52 - expo ?x)"
      using k by (simp add: power_int_def)
    also have "\<dots> = of_int (n * 2 ^ nat (52 - expo ?x))" by simp
    finally show ?thesis by (rule rnd_fixed)
  qed
qed

lemma rnd_of_int:
  assumes "\<bar>n\<bar> \<le> 2 ^ 53"
  shows "rnd (of_int n) = of_int n"
proof -
  consider "0 < n" | "n = 0" | "n < 0" by linarith
  then show ?thesis
  proof cases
    case 1
    then show ?thesis using assms by (intro rnd_of_int_pos) simp_all
  next
    case 2
    then show ?thesis by simp
  next
    case 3
    then have "rnd (of_int (- n)) = of_int (- n)" using assms by (intro rnd_of_int_pos) simp_all
    then show ?thesis by (simp add: rnd_minus)
  qed
qed

lemma max_double_ge: "2 ^ 53 \<le> max_double"
  by (simp add: max_double_def)

lemma fl_Num_rnd: "fl x = Num d \<Longrightarrow> d = rnd x"
  by (simp add: fl_def Let_def split: if_splits)

lemma fl_rnd: "\<bar>rnd x\<bar> \<le> max_double \<Longrightarrow> fl x = Num (rnd x)"
  by (auto simp: fl_def Let_def)

lemma fl_idem:
  assumes "fl x = Num d"
  shows "fl d = Num d"
proof -
  have d: "d = rnd x" using assms by (rule fl_Num_rnd)
  have "\<bar>rnd x\<bar> \<le> max_double" using assms by (auto simp: fl_def Let_def split: if_splits)
  then show ?thesis unfolding d by (auto simp: fl_def Let_def)
qed

lemma fl_zero [simp]: "fl 0 = Num 0"
  using max_double_ge by (simp add: fl_def)

lemma fl_mono_lt:
  assumes "x \<le> y" and "js_lt g (fl x)"
  shows "js_lt g (fl y)"
proof -
  have r: "rnd x \<le> rnd y" using assms(1) by (rule rnd_mono)
  have m: "0 < max_double" using max_double_ge by simp
  show ?thesis
    using assms(2) r m by (cases g) (auto simp: fl_def Let_def split: if_splits)
qed

lemma fl_mono_Num: "x \<le> y \<Longrightarrow> fl x = Num a \<Longrightarrow> fl y = Num b \<Longrightarrow> a \<le> b"
  using rnd_mono [of x y] fl_Num_rnd [of x a] fl_Num_rnd [of y b] by simp

lemma fl_of_int:
  assumes "\<bar>n\<bar> \<le> 2 ^ 53"
  shows "fl (of_int n) = Num (of_int n)"
proof -
  have "\<bar>of_int n :: real\<bar> \<le> of_int (2 ^ 53)"
    using assms by (simp only: of_int_abs [symmetric] of_int_le_iff)
  then have "\<bar>of_int n :: real\<bar> \<le> max_double" using max_double_ge by simp
  then show ?thesis using rnd_of_int [OF assms] by (simp add: fl_rnd)
qed

lemma fl_numeral [simp]:
  "numeral k \<le> (9007199254740992 :: int) \<Longrightarrow> fl (numeral k) = Num (numeral k)"
  using fl_of_int [of "numeral k"] by simp

lemma fl_one [simp]: "fl 1 = Num 1"
  using fl_of_int [of 1] by simp

lemma is_double_numeral [simp]:
  "numeral k \<le> (9007199254740992 :: int) \<Longrightarrow> is_double (numeral k)"
  by (simp add: is_double_def)

lemma is_double_zero [simp]: "is_double 0"
  by (simp add: is_double_def)

text \<open>Rounding where the exponent and the rounded significand are given.\<close>

lemma fl_at_exponent:
  assumes "0 < x" and "2 powi e \<le> x" and "x < 2 powi (e + 1)" and "- 1022 \<le> e"
    and "rne (x / 2 powi (e - 52)) = m" and "2 powi (e - 52) * of_int m \<le> max_double"
  shows "fl x = Num (2 powi (e - 52) * of_int m)"
proof -
  have "expo x = e" using assms(1-3) by (rule expo_unique)
  then have "dexp x = e" using assms(1,4) by (simp add: dexp_def)
  then have r: "rnd x = 2 powi (e - 52) * of_int m"
    using assms(5) by (simp add: rnd_def ulp_def)
  have "0 \<le> rnd x" using assms(1) by (intro rnd_nonneg) simp
  then show ?thesis using assms(6) r by (simp add: fl_rnd)
qed

lemma fl_2_53_plus_1 [simp]: "fl 9007199254740993 = Num 9007199254740992"
proof -
  have "rne (9007199254740993 / 2 powi (53 - 52)) = 4503599627370496"
    by (simp add: rne_def Let_def)
  then have "fl 9007199254740993 = Num (2 powi (53 - 52) * of_int 4503599627370496)"
    by (intro fl_at_exponent) (simp_all add: max_double_def)
  then show ?thesis by simp
qed

lemma fl_2_53_plus_400 [simp]: "fl 9007199254741392 = Num 9007199254741392"
proof -
  have "rne (9007199254741392 / 2 powi (53 - 52)) = 4503599627370696"
    by (simp add: rne_def Let_def)
  then have "fl 9007199254741392 = Num (2 powi (53 - 52) * of_int 4503599627370696)"
    by (intro fl_at_exponent) (simp_all add: max_double_def)
  then show ?thesis by simp
qed

lemma is_double_of_int: "\<bar>n\<bar> \<le> 2 ^ 53 \<Longrightarrow> is_double (of_int n)"
  by (simp add: is_double_def fl_of_int)

lemma fl_mono_lt_left:
  assumes "x \<le> y" and "js_lt (fl y) g"
  shows "js_lt (fl x) g"
proof -
  have r: "rnd x \<le> rnd y" using assms(1) by (rule rnd_mono)
  have m: "0 < max_double" using max_double_ge by simp
  show ?thesis
    using assms(2) r m by (cases g) (auto simp: fl_def Let_def split: if_splits)
qed

section \<open>Facts about the operations\<close>

lemma arr_get_arr_set:
  "arr_get (arr_set a i v) j = (if j = i then Some v else arr_get a j)"
proof (cases "i < 0")
  case True
  then show ?thesis by (auto simp: arr_get_def arr_set_def)
next
  case False
  note nonneg = this
  show ?thesis
  proof (cases "i < int (length (elems a))")
    case True
    with nonneg show ?thesis
      by (auto simp: arr_get_def arr_set_def nth_list_update)
  next
    case False
    with nonneg show ?thesis
      by (auto simp: arr_get_def arr_set_def nth_append nth_Cons' nat_less_iff)
  qed
qed

lemma length_arr_set:
  "length (elems (arr_set a i v)) =
     (if i < 0 then length (elems a) else max (length (elems a)) (nat i + 1))"
  by (auto simp: arr_set_def)

lemma tops_loop_eq:
  "tops_loop hs tops t = (tops @ map (\<lambda>i. foldl add_height t (take i hs)) [0..<length hs], foldl add_height t hs)"
proof (induction hs arbitrary: tops t)
  case Nil
  then show ?case by simp
next
  case (Cons h hs)
  have "map (\<lambda>i. foldl add_height t (take i (h # hs))) [0..<length (h # hs)]
        = t # map (\<lambda>i. foldl add_height (add_height t h) (take i hs)) [0..<length hs]"
    by (simp add: upt_conv_Cons map_Suc_upt[symmetric] del: upt_Suc)
  then show ?case using Cons.IH by simp
qed

lemma itemTops_updateItemTops:
  "itemTops (updateItemTops c) =
     map (\<lambda>i. foldl add_height (Num 0) (take i (elems (itemHeights c))))
       [0..<length (elems (itemHeights c))]"
  by (simp add: updateItemTops_def tops_loop_eq)

lemma totalContentHeight_updateItemTops:
  "totalContentHeight (updateItemTops c) = foldl add_height (Num 0) (elems (itemHeights c))"
  by (simp add: updateItemTops_def tops_loop_eq)

lemma updateItemTops_other [simp]:
  "items (updateItemTops c) = items c"
  "viewportHeight (updateItemTops c) = viewportHeight c"
  "buffer (updateItemTops c) = buffer c"
  "initialItemHeight (updateItemTops c) = initialItemHeight c"
  "itemHeights (updateItemTops c) = itemHeights c"
  "visibleStart (updateItemTops c) = visibleStart c"
  "visibleEnd (updateItemTops c) = visibleEnd c"
  "visibleItems (updateItemTops c) = visibleItems c"
  "observed (updateItemTops c) = observed c"
  "emitted (updateItemTops c) = emitted c"
  by (simp_all add: updateItemTops_def split: prod.splits)

lemma length_itemTops_updateItemTops [simp]:
  "length (itemTops (updateItemTops c)) = length (elems (itemHeights c))"
  by (simp add: itemTops_updateItemTops)

lemma nth_itemTops_updateItemTops:
  "i < length (elems (itemHeights c)) \<Longrightarrow>
   itemTops (updateItemTops c) ! i = foldl add_height (Num 0) (take i (elems (itemHeights c)))"
  by (simp add: itemTops_updateItemTops)

lemma elems_array_of [simp]: "elems (array_of H) = map Some H"
  by (simp add: array_of_def)

lemma getItemTop_out_of_range:
  "index < 0 \<or> int (length (itemTops c)) \<le> index \<Longrightarrow> getItemTop c index = Num 0"
  by (auto simp: getItemTop_def)


declare start_loop.simps [simp del] end_loop.simps [simp del]

lemma js_lt_Num_mono: "js_lt t (Num a) \<Longrightarrow> a \<le> b \<Longrightarrow> js_lt t (Num b)"
  by (cases t) auto

lemma start_loop_ge: "start \<le> start_loop c scrollTop start"
proof (induction c scrollTop start rule: start_loop.induct)
  case (1 c scrollTop start)
  show ?case
  proof (cases "start < length (items c) \<and> js_lt (getItemTop c (int start + 1)) (Num scrollTop)")
    case True
    then have "start + 1 \<le> start_loop c scrollTop (start + 1)" using "1.IH" by blast
    then show ?thesis using True by (subst start_loop.simps) simp
  next
    case False
    then show ?thesis by (subst start_loop.simps) auto
  qed
qed

lemma start_loop_le:
  "start \<le> length (items c) \<Longrightarrow> start_loop c scrollTop start \<le> length (items c)"
proof (induction c scrollTop start rule: start_loop.induct)
  case (1 c scrollTop start)
  show ?case
  proof (cases "start < length (items c) \<and> js_lt (getItemTop c (int start + 1)) (Num scrollTop)")
    case True
    then have "start_loop c scrollTop (start + 1) \<le> length (items c)" using "1.IH" by simp
    then show ?thesis using True by (subst start_loop.simps) simp
  next
    case False
    then show ?thesis using "1.prems" by (subst start_loop.simps) auto
  qed
qed

lemma start_loop_skipped:
  "start \<le> j \<Longrightarrow> j < start_loop c scrollTop start \<Longrightarrow>
   j < length (items c) \<and> js_lt (getItemTop c (int j + 1)) (Num scrollTop)"
proof (induction c scrollTop start rule: start_loop.induct)
  case (1 c scrollTop start)
  show ?case
  proof (cases "start < length (items c) \<and> js_lt (getItemTop c (int start + 1)) (Num scrollTop)")
    case True
    then have eq: "start_loop c scrollTop start = start_loop c scrollTop (start + 1)"
      by (subst start_loop.simps) simp
    show ?thesis
    proof (cases "j = start")
      case True
      then show ?thesis using \<open>start < length (items c) \<and> js_lt (getItemTop c (int start + 1)) (Num scrollTop)\<close> by simp
    next
      case False
      then have "start + 1 \<le> j" using "1.prems" by simp
      then show ?thesis using "1.IH" True "1.prems" eq by simp
    qed
  next
    case False
    then have "start_loop c scrollTop start = start" by (subst start_loop.simps) auto
    then show ?thesis using "1.prems" by simp
  qed
qed

lemma start_loop_stops:
  "start_loop c scrollTop start < length (items c) \<Longrightarrow>
   \<not> js_lt (getItemTop c (int (start_loop c scrollTop start) + 1)) (Num scrollTop)"
proof (induction c scrollTop start rule: start_loop.induct)
  case (1 c scrollTop start)
  show ?case
  proof (cases "start < length (items c) \<and> js_lt (getItemTop c (int start + 1)) (Num scrollTop)")
    case True
    then have eq: "start_loop c scrollTop start = start_loop c scrollTop (start + 1)"
      by (subst start_loop.simps) simp
    then show ?thesis using "1.IH" True "1.prems" by simp
  next
    case False
    then have eq: "start_loop c scrollTop start = start" by (subst start_loop.simps) auto
    then show ?thesis using False "1.prems" by auto
  qed
qed

lemma start_loop_saturates:
  assumes "start \<le> length (items c)"
    and "\<And>j. start \<le> j \<Longrightarrow> j < length (items c) \<Longrightarrow> js_lt (getItemTop c (int j + 1)) (Num scrollTop)"
  shows "start_loop c scrollTop start = length (items c)"
proof (rule ccontr)
  assume "start_loop c scrollTop start \<noteq> length (items c)"
  then have lt: "start_loop c scrollTop start < length (items c)"
    using start_loop_le [OF assms(1), of scrollTop] by simp
  from start_loop_stops [OF lt] assms(2) [OF start_loop_ge lt] show False by simp
qed

lemma start_loop_mono:
  "scrollTop \<le> scrollTop' \<Longrightarrow> start \<le> start' \<Longrightarrow>
   start_loop c scrollTop start \<le> start_loop c scrollTop' start'"
proof (rule ccontr)
  assume le: "scrollTop \<le> scrollTop'" and st: "start \<le> start'"
    and "\<not> start_loop c scrollTop start \<le> start_loop c scrollTop' start'"
  then have lt: "start_loop c scrollTop' start' < start_loop c scrollTop start" by simp
  let ?r = "start_loop c scrollTop' start'"
  have "start \<le> ?r" using st start_loop_ge [of start' c scrollTop'] by simp
  from start_loop_skipped [OF this lt]
  have in_range: "?r < length (items c)"
    and "js_lt (getItemTop c (int ?r + 1)) (Num scrollTop)" by simp_all
  with le have "js_lt (getItemTop c (int ?r + 1)) (Num scrollTop')" by (auto intro: js_lt_Num_mono)
  with start_loop_stops [OF in_range] show False by simp
qed


lemma end_loop_continue:
  "end' < length (items c) \<Longrightarrow> js_lt (getItemTop c (int end')) viewportBottom \<Longrightarrow>
   end_loop c viewportBottom end' = end_loop c viewportBottom (end' + 1)"
  by (subst end_loop.simps) simp

lemma end_loop_exit:
  "\<not> (end' < length (items c) \<and> js_lt (getItemTop c (int end')) viewportBottom) \<Longrightarrow>
   end_loop c viewportBottom end' = end'"
  by (subst end_loop.simps) auto

lemma end_loop_ge: "end' \<le> end_loop c viewportBottom end'"
proof (induction c viewportBottom end' rule: end_loop.induct)
  case (1 c viewportBottom end')
  then show ?case
    by (cases "end' < length (items c) \<and> js_lt (getItemTop c (int end')) viewportBottom")
      (fastforce simp: end_loop_continue, simp add: end_loop_exit)
qed

lemma end_loop_le:
  "end' \<le> length (items c) \<Longrightarrow> end_loop c viewportBottom end' \<le> length (items c)"
proof (induction c viewportBottom end' rule: end_loop.induct)
  case (1 c viewportBottom end')
  then show ?case
    by (cases "end' < length (items c) \<and> js_lt (getItemTop c (int end')) viewportBottom")
      (simp add: end_loop_continue, simp add: end_loop_exit)
qed

lemma end_loop_passed:
  "end' \<le> j \<Longrightarrow> j < end_loop c viewportBottom end' \<Longrightarrow>
   j < length (items c) \<and> js_lt (getItemTop c (int j)) viewportBottom"
proof (induction c viewportBottom end' rule: end_loop.induct)
  case (1 c viewportBottom end')
  show ?case
  proof (cases "end' < length (items c) \<and> js_lt (getItemTop c (int end')) viewportBottom")
    case True
    then have eq: "end_loop c viewportBottom end' = end_loop c viewportBottom (end' + 1)"
      by (simp add: end_loop_continue)
    show ?thesis
    proof (cases "j = end'")
      case False
      then have "end' + 1 \<le> j" using "1.prems" by simp
      then show ?thesis using "1.IH" True "1.prems" eq by simp
    qed (use True in simp)
  next
    case False
    then show ?thesis using "1.prems" by (simp add: end_loop_exit)
  qed
qed

lemma end_loop_stops:
  "end_loop c viewportBottom end' < length (items c) \<Longrightarrow>
   \<not> js_lt (getItemTop c (int (end_loop c viewportBottom end'))) viewportBottom"
proof (induction c viewportBottom end' rule: end_loop.induct)
  case (1 c viewportBottom end')
  show ?case
  proof (cases "end' < length (items c) \<and> js_lt (getItemTop c (int end')) viewportBottom")
    case True
    then show ?thesis using "1.IH" "1.prems" by (simp add: end_loop_continue)
  next
    case False
    then show ?thesis using "1.prems" by (auto simp: end_loop_exit)
  qed
qed

lemma end_loop_mono:
  assumes "\<And>t. js_lt t viewportBottom \<Longrightarrow> js_lt t viewportBottom'" and "end1 \<le> end2"
  shows "end_loop c viewportBottom end1 \<le> end_loop c viewportBottom' end2"
proof (rule ccontr)
  let ?r = "end_loop c viewportBottom' end2"
  assume "\<not> end_loop c viewportBottom end1 \<le> ?r"
  then have lt: "?r < end_loop c viewportBottom end1" by simp
  have "end1 \<le> ?r" using assms(2) end_loop_ge [of end2 c viewportBottom'] by simp
  from end_loop_passed [OF this lt]
  have in_range: "?r < length (items c)"
    and "js_lt (getItemTop c (int ?r)) viewportBottom" by simp_all
  with assms(1) have "js_lt (getItemTop c (int ?r)) viewportBottom'" by simp
  with end_loop_stops [OF in_range] show False by simp
qed


lemma measure_element_other [simp]:
  "items (measure_element el c) = items c"
  "viewportHeight (measure_element el c) = viewportHeight c"
  "buffer (measure_element el c) = buffer c"
  "itemTops (measure_element el c) = itemTops c"
  "visibleStart (measure_element el c) = visibleStart c"
  "visibleEnd (measure_element el c) = visibleEnd c"
  by (simp_all add: measure_element_def Let_def)

lemma fold_measure_element_other [simp]:
  "items (fold measure_element els c) = items c"
  "viewportHeight (fold measure_element els c) = viewportHeight c"
  "buffer (fold measure_element els c) = buffer c"
  "itemTops (fold measure_element els c) = itemTops c"
  "visibleStart (fold measure_element els c) = visibleStart c"
  "visibleEnd (fold measure_element els c) = visibleEnd c"
  by (induction els arbitrary: c; simp)+

lemma measureItemHeights_other [simp]:
  "items (measureItemHeights els c) = items c"
  "viewportHeight (measureItemHeights els c) = viewportHeight c"
  "buffer (measureItemHeights els c) = buffer c"
  "visibleStart (measureItemHeights els c) = visibleStart c"
  "visibleEnd (measureItemHeights els c) = visibleEnd c"
  by (simp_all add: measureItemHeights_def)

lemma arr_get_measure_element:
  "arr_get (itemHeights (measure_element (idx, h) c)) j =
     (if j = visibleStart c + int idx then Some h else arr_get (itemHeights c) j)"
  by (auto simp: measure_element_def Let_def arr_get_arr_set)

lemma arr_get_fold_measure_element:
  "arr_get (itemHeights (fold measure_element (enumerate n els) c)) j =
     (if visibleStart c + int n \<le> j \<and> j < visibleStart c + int n + int (length els)
      then Some (els ! nat (j - visibleStart c - int n))
      else arr_get (itemHeights c) j)"
proof (induction els arbitrary: n c)
  case Nil
  then show ?case by auto
next
  case (Cons h els)
  have "nat (j - visibleStart c - int n) = Suc (nat (j - visibleStart c - int (Suc n)))"
    if "visibleStart c + int (Suc n) \<le> j"
    using that by simp
  then show ?case
    using Cons.IH [of "Suc n" "measure_element (n, h) c"]
    by (auto simp: arr_get_measure_element)
qed

lemma arr_get_measureItemHeights:
  "arr_get (itemHeights (measureItemHeights els c)) j =
     (if visibleStart c \<le> j \<and> j < visibleStart c + int (length els)
      then Some (els ! nat (j - visibleStart c))
      else arr_get (itemHeights c) j)"
  using arr_get_fold_measure_element [of 0 els c j] by (simp add: measureItemHeights_def)

lemma measure_element_noop:
  "arr_get (itemHeights c) (visibleStart c + int idx) = Some h \<Longrightarrow>
   measure_element (idx, h) c = c"
  by (simp add: measure_element_def Let_def)

lemma fold_measure_element_noop:
  "(\<And>idx h. (idx, h) \<in> set xs \<Longrightarrow> arr_get (itemHeights c) (visibleStart c + int idx) = Some h)
   \<Longrightarrow> fold measure_element xs c = c"
proof (induction xs)
  case Nil
  then show ?case by simp
next
  case (Cons x xs)
  obtain idx h where x: "x = (idx, h)" by (cases x)
  have "measure_element x c = c" unfolding x
    by (rule measure_element_noop) (simp add: Cons.prems x)
  then show ?case using Cons by simp
qed

lemma measured_batch_noop:
  assumes "\<And>idx. idx < length els \<Longrightarrow>
             arr_get (itemHeights c) (visibleStart c + int idx) = Some (els ! idx)"
  shows "fold measure_element (enumerate 0 els) c = c"
  by (rule fold_measure_element_noop) (auto simp: in_set_enumerate_eq assms)

lemma length_elems_measure_element:
  "length (elems (itemHeights (measure_element (idx, h) c))) =
     (if visibleStart c + int idx < 0 then length (elems (itemHeights c))
      else max (length (elems (itemHeights c))) (nat (visibleStart c + int idx) + 1))"
  by (auto simp: measure_element_def Let_def length_arr_set arr_get_def)

lemma length_elems_fold_measure_element:
  "length (elems (itemHeights (fold measure_element (enumerate 0 els) c))) =
     (if els = [] then length (elems (itemHeights c))
      else max (length (elems (itemHeights c))) (nat (visibleStart c + int (length els))))"
proof (induction els rule: rev_induct)
  case Nil
  then show ?case by simp
next
  case (snoc h els)
  let ?c = "fold measure_element (enumerate 0 els) c"
  have "length (elems (itemHeights (fold measure_element (enumerate 0 (els @ [h])) c))) =
        length (elems (itemHeights (measure_element (length els, h) ?c)))"
    by (simp add: enumerate_append_eq)
  also have "\<dots> = (if visibleStart c + int (length els) < 0 then length (elems (itemHeights ?c))
      else max (length (elems (itemHeights ?c))) (nat (visibleStart c + int (length els)) + 1))"
    by (simp add: length_elems_measure_element)
  finally show ?case using snoc.IH by (auto simp: max_def nat_add_distrib)
qed


lemma updateVisibleItems_other [simp]:
  "items (updateVisibleItems c) = items c"
  "visibleStart (updateVisibleItems c) = visibleStart c"
  "visibleEnd (updateVisibleItems c) = visibleEnd c"
  by (simp_all add: updateVisibleItems_def)

lemma visibleStart_onScroll:
  "visibleStart (onScroll scrollTop els c) = max 0 (int (start_loop c scrollTop 0) - buffer c)"
  by (simp add: onScroll_def Let_def)

lemma visibleEnd_onScroll:
  "visibleEnd (onScroll scrollTop els c) =
     min (int (length (items c)))
       (int (end_loop c (js_add (Num scrollTop) (Num (viewportHeight c)))
               (start_loop c scrollTop 0)) + buffer c)"
  by (simp add: onScroll_def Let_def)

lemma items_onScroll [simp]: "items (onScroll scrollTop els c) = items c"
  by (simp add: onScroll_def Let_def)

lemma observed_measure_element:
  "observed (measure_element el c) = observed c \<Longrightarrow> measure_element el c = c"
  by (simp add: measure_element_def Let_def split: if_splits)

lemma length_observed_measure_element:
  "length (observed c) \<le> length (observed (measure_element el c))"
  by (simp add: measure_element_def Let_def)

lemma length_observed_fold_measure_element:
  "length (observed c) \<le> length (observed (fold measure_element xs c))"
proof (induction xs arbitrary: c)
  case Nil
  then show ?case by simp
next
  case (Cons x xs)
  have "length (observed c) \<le> length (observed (measure_element x c))"
    by (rule length_observed_measure_element)
  also have "\<dots> \<le> length (observed (fold measure_element xs (measure_element x c)))"
    by (rule Cons.IH)
  finally show ?case by simp
qed

lemma observed_fold_measure_element:
  "observed (fold measure_element xs c) = observed c \<Longrightarrow> fold measure_element xs c = c"
proof (induction xs arbitrary: c)
  case Nil
  then show ?case by simp
next
  case (Cons x xs)
  have "length (observed (measure_element x c)) \<le> length (observed c)"
    using length_observed_fold_measure_element [of "measure_element x c" xs] Cons.prems by simp
  then have "length (observed (measure_element x c)) = length (observed c)"
    using length_observed_measure_element [of c x] by simp
  then have "observed (measure_element x c) = observed c"
    by (simp add: measure_element_def Let_def split: if_splits)
  then have "measure_element x c = c" by (rule observed_measure_element)
  then show ?case using Cons by simp
qed

lemma changed_iff_store_differs:
  "changed els c \<longleftrightarrow> itemHeights (measureItemHeights els c) \<noteq> itemHeights c"
proof
  assume "changed els c"
  show "itemHeights (measureItemHeights els c) \<noteq> itemHeights c"
  proof
    assume same: "itemHeights (measureItemHeights els c) = itemHeights c"
    have "arr_get (itemHeights c) (visibleStart c + int idx) = Some (els ! idx)"
      if "idx < length els" for idx
      using that arr_get_measureItemHeights [of els c "visibleStart c + int idx"] same by simp
    then have "fold measure_element (enumerate 0 els) c = c" by (rule measured_batch_noop)
    then have "\<not> changed els c" by (simp add: changed_def measureItemHeights_def)
    with \<open>changed els c\<close> show False by simp
  qed
next
  assume "itemHeights (measureItemHeights els c) \<noteq> itemHeights c"
  then have "fold measure_element (enumerate 0 els) c \<noteq> c"
    by (auto simp: measureItemHeights_def)
  then have "observed (fold measure_element (enumerate 0 els) c) \<noteq> observed c"
    using observed_fold_measure_element by blast
  then show "changed els c" by (simp add: changed_def measureItemHeights_def)
qed

lemma elems_nth_arr_get: "i < length (elems a) \<Longrightarrow> elems a ! i = arr_get a (int i)"
  by (simp add: arr_get_def)

lemma getItemTop_updateItemTops_twice:
  "getItemTop (updateItemTops (updateItemTops c)) i = getItemTop (updateItemTops c) i"
  by (simp add: getItemTop_def itemTops_updateItemTops)

lemma single_correction_frame:
  assumes idx0: "idx0 < length els" and k: "k = visibleStart c + int idx0"
    and k0: "0 \<le> k" and kn: "k < int (length (elems (itemHeights c)))"
    and others: "\<And>idx. idx < length els \<Longrightarrow> idx \<noteq> idx0 \<Longrightarrow>
                   arr_get (itemHeights c) (visibleStart c + int idx) = Some (els ! idx)"
  shows store: "arr_get (itemHeights (measureItemHeights els c)) j =
                  (if j = k then Some (els ! idx0) else arr_get (itemHeights c) j)"
    and size: "length (elems (itemHeights (measureItemHeights els c)))
                  = length (elems (itemHeights c))"
    and elems: "elems (itemHeights (measureItemHeights els c))
                  = (elems (itemHeights c))[nat k := Some (els ! idx0)]"
proof -
  let ?c' = "measureItemHeights els c"
  show store: "arr_get (itemHeights ?c') j =
                  (if j = k then Some (els ! idx0) else arr_get (itemHeights c) j)" for j
  proof (cases "visibleStart c \<le> j \<and> j < visibleStart c + int (length els)")
    case True
    then have j: "j = visibleStart c + int (nat (j - visibleStart c))"
      and lt: "nat (j - visibleStart c) < length els" by linarith+
    show ?thesis
    proof (cases "j = k")
      case True
      then have "nat (j - visibleStart c) = idx0" using k by simp
      then show ?thesis
        using \<open>visibleStart c \<le> j \<and> j < visibleStart c + int (length els)\<close> True
        by (simp add: arr_get_measureItemHeights)
    next
      case False
      then have "nat (j - visibleStart c) \<noteq> idx0" using k j by auto
      from others [OF lt this] j
      have "arr_get (itemHeights c) j = Some (els ! nat (j - visibleStart c))" by simp
      then show ?thesis
        using \<open>visibleStart c \<le> j \<and> j < visibleStart c + int (length els)\<close> False
        by (simp add: arr_get_measureItemHeights)
    qed
  next
    case False
    moreover from False have "j \<noteq> k" using k idx0 by auto
    ultimately show ?thesis by (auto simp: arr_get_measureItemHeights)
  qed
  have "nat (visibleStart c + int (length els)) \<le> length (elems (itemHeights c))"
  proof (cases "length els - 1 = idx0")
    case True
    then have "visibleStart c + int (length els) = k + 1" using k idx0 by auto
    then show ?thesis using kn by simp
  next
    case False
    have "arr_get (itemHeights c) (visibleStart c + int (length els - 1)) \<noteq> None"
      using others [of "length els - 1"] False idx0 by simp
    then have "visibleStart c + int (length els - 1) < int (length (elems (itemHeights c)))"
      by (auto simp: arr_get_def split: if_splits)
    then show ?thesis using idx0 by (simp add: of_nat_diff Suc_leI)
  qed
  then show size: "length (elems (itemHeights ?c')) = length (elems (itemHeights c))"
    using idx0 by (auto simp: measureItemHeights_def length_elems_fold_measure_element)
  show "elems (itemHeights ?c') = (elems (itemHeights c))[nat k := Some (els ! idx0)]"
  proof (rule nth_equalityI)
    show "length (elems (itemHeights ?c'))
            = length ((elems (itemHeights c))[nat k := Some (els ! idx0)])"
      using size by simp
  next
    fix i assume "i < length (elems (itemHeights ?c'))"
    then have i: "i < length (elems (itemHeights c))" using size by simp
    then have "elems (itemHeights ?c') ! i = arr_get (itemHeights ?c') (int i)"
      using size by (simp add: elems_nth_arr_get)
    also have "\<dots> = (if int i = k then Some (els ! idx0) else arr_get (itemHeights c) (int i))"
      by (rule store)
    also have "\<dots> = (elems (itemHeights c))[nat k := Some (els ! idx0)] ! i"
      using i k0 by (auto simp: nth_list_update elems_nth_arr_get)
    finally show "elems (itemHeights ?c') ! i
                    = (elems (itemHeights c))[nat k := Some (els ! idx0)] ! i" .
  qed
qed

lemma itemTops_measureItemHeights:
  "i < length (elems (itemHeights (measureItemHeights els c))) \<Longrightarrow>
   itemTops (measureItemHeights els c) ! i =
     foldl add_height (Num 0) (take i (elems (itemHeights (measureItemHeights els c))))"
  by (simp add: measureItemHeights_def nth_itemTops_updateItemTops)

lemma single_correction_offsets_before:
  assumes idx0: "idx0 < length els" and k: "k = visibleStart c + int idx0"
    and k0: "0 \<le> k" and kn: "k < int (length (elems (itemHeights c)))"
    and others: "\<And>idx. idx < length els \<Longrightarrow> idx \<noteq> idx0 \<Longrightarrow>
                   arr_get (itemHeights c) (visibleStart c + int idx) = Some (els ! idx)"
    and i: "i \<le> k"
  shows "getItemTop (measureItemHeights els c) i = getItemTop (updateItemTops c) i"
proof (cases "i < 0")
  case True
  then show ?thesis by (simp add: getItemTop_out_of_range)
next
  case False
  let ?c' = "measureItemHeights els c"
  note size = single_correction_frame(2) [OF idx0 k k0 kn others]
  note elems = single_correction_frame(3) [OF idx0 k k0 kn others]
  have in_range: "nat i < length (elems (itemHeights c))" using False i kn by simp
  have "take (nat i) (elems (itemHeights ?c')) = take (nat i) (elems (itemHeights c))"
    using i False by (simp add: elems)
  then have "itemTops ?c' ! nat i = itemTops (updateItemTops c) ! nat i"
    using in_range size by (simp add: itemTops_measureItemHeights nth_itemTops_updateItemTops)
  moreover have "length (itemTops ?c') = length (itemTops (updateItemTops c))"
    using size by (simp add: measureItemHeights_def)
  ultimately show ?thesis by (simp add: getItemTop_def)
qed

lemma js_add_Num_iff:
  "js_add t (Num h) = Num b \<longleftrightarrow> (\<exists>a. t = Num a \<and> fl (a + h) = Num b)"
  by (cases t) auto

lemma foldl_add_height_snoc:
  "foldl add_height t (map Some (H @ [h])) = add_height (foldl add_height t (map Some H)) (Some h)"
  by simp

lemma nth_itemTops_step:
  assumes "Suc i < length (elems (itemHeights c))"
  shows "itemTops (updateItemTops c) ! Suc i
           = add_height (itemTops (updateItemTops c) ! i) (elems (itemHeights c) ! i)"
  using assms by (simp add: nth_itemTops_updateItemTops take_Suc_conv_app_nth)

lemma totalContentHeight_step:
  assumes "elems (itemHeights c) \<noteq> []"
  shows "totalContentHeight (updateItemTops c)
           = add_height (itemTops (updateItemTops c) ! (length (elems (itemHeights c)) - 1))
               (last (elems (itemHeights c)))"
proof -
  obtain A l where E: "elems (itemHeights c) = A @ [l]"
    using assms by (cases "elems (itemHeights c)" rule: rev_cases) auto
  show ?thesis
    by (simp add: totalContentHeight_updateItemTops nth_itemTops_updateItemTops E)
qed

lemma foldl_add_height_exact:
  fixes H :: "real list"
  assumes "\<And>i. i \<le> length H \<Longrightarrow> is_double (t + sum_list (take i H))"
  shows "foldl add_height (Num t) (map Some H) = Num (t + sum_list H)"
  using assms
proof (induction H arbitrary: t)
  case Nil
  then show ?case by simp
next
  case (Cons h H)
  have "is_double (t + sum_list (take 1 (h # H)))" by (rule Cons.prems) simp
  then have step: "add_height (Num t) (Some h) = Num (t + h)" by (simp add: is_double_def)
  have "is_double (t + h + sum_list (take i H))" if "i \<le> length H" for i
    using Cons.prems [of "Suc i"] that by (simp add: add.assoc)
  then have "foldl add_height (Num (t + h)) (map Some H) = Num (t + h + sum_list H)"
    by (rule Cons.IH)
  then show ?case using step by (simp add: add.assoc)
qed

lemma offsets_invariant:
  fixes H :: "real list"
  assumes "\<forall>h\<in>set H. 0 \<le> h" and "foldl add_height (Num 0) (map Some H) = Num b"
  shows "0 \<le> b \<and> is_double b"
  using assms
proof (induction H arbitrary: b rule: rev_induct)
  case Nil
  then show ?case by auto
next
  case (snoc h H)
  from snoc.prems(2) obtain a where a: "foldl add_height (Num 0) (map Some H) = Num a"
    and b: "fl (a + h) = Num b"
    by (auto simp: js_add_Num_iff)
  have "0 \<le> a" using snoc.IH [OF _ a] snoc.prems(1) by simp
  then have "0 \<le> rnd (a + h)" using snoc.prems(1) by (intro rnd_nonneg) simp
  then show ?case using b fl_idem [OF b] fl_Num_rnd [OF b] by (simp add: is_double_def)
qed

lemma offsets_mono:
  fixes H :: "real list"
  assumes "\<forall>h\<in>set (H @ H'). 0 \<le> h"
    and "foldl add_height (Num 0) (map Some (H @ H')) = Num b"
  shows "\<exists>a. foldl add_height (Num 0) (map Some H) = Num a \<and> a \<le> b"
  using assms
proof (induction H' arbitrary: b rule: rev_induct)
  case Nil
  then show ?case by simp
next
  case (snoc h H')
  have "foldl add_height (Num 0) (map Some (H @ H' @ [h]))
          = js_add (foldl add_height (Num 0) (map Some (H @ H'))) (Num h)" by simp
  with snoc.prems(2) obtain a' where a': "foldl add_height (Num 0) (map Some (H @ H')) = Num a'"
    and b: "fl (a' + h) = Num b"
    by (auto simp: js_add_Num_iff)
  have nonneg: "\<forall>h\<in>set (H @ H'). 0 \<le> h" using snoc.prems(1) by simp
  from snoc.IH [OF nonneg a'] obtain a
    where a: "foldl add_height (Num 0) (map Some H) = Num a" and le: "a \<le> a'" by blast
  have "is_double a'" using offsets_invariant [OF nonneg a'] by simp
  then have fa: "fl a' = Num a'" by (simp add: is_double_def)
  have "a' \<le> a' + h" using snoc.prems(1) by simp
  then have "a' \<le> b" using fa b by (rule fl_mono_Num)
  with a le show ?case by auto
qed

lemma nth_itemTops_below:
  fixes H :: "real list"
  assumes nonneg: "\<forall>h\<in>set H. 0 \<le> h" and E: "elems (itemHeights c) = map Some H"
    and k: "k < length H" and top: "itemTops (updateItemTops c) ! k = Num b" and i: "i \<le> k"
  shows "\<exists>a. itemTops (updateItemTops c) ! i = Num a \<and> 0 \<le> a \<and> a \<le> b"
proof -
  have "take i (take k H) @ drop i (take k H) = take k H" by (rule append_take_drop_id)
  then obtain B where split: "take k H = take i H @ B"
    using i by (simp add: min_absorb1) metis
  have "\<forall>h\<in>set (take k H). 0 \<le> h" using nonneg by (auto dest: in_set_takeD)
  then have nn: "\<forall>h\<in>set (take i H @ B). 0 \<le> h" unfolding split .
  have "foldl add_height (Num 0) (map Some (take k H)) = Num b"
    using top k E by (simp add: nth_itemTops_updateItemTops take_map)
  then have "foldl add_height (Num 0) (map Some (take i H @ B)) = Num b" unfolding split .
  from offsets_mono [OF nn this] obtain a
    where a: "foldl add_height (Num 0) (map Some (take i H)) = Num a" and le: "a \<le> b"
    by blast
  have "\<forall>h\<in>set (take i H). 0 \<le> h" using nonneg by (auto dest: in_set_takeD)
  from offsets_invariant [OF this a] have "0 \<le> a" by simp
  moreover have "itemTops (updateItemTops c) ! i = Num a"
    using a i k E by (simp add: nth_itemTops_updateItemTops take_map)
  ultimately show ?thesis using le by blast
qed

lemma getItemTop_Num:
  "0 \<le> i \<Longrightarrow> i < int (length (itemTops c)) \<Longrightarrow> itemTops c ! nat i = Num a \<Longrightarrow>
   getItemTop c i = Num a"
  by (simp add: getItemTop_def)

lemma start_loop_past_last_top:
  fixes H :: "real list"
  assumes "H \<noteq> []" and nonneg: "\<forall>h\<in>set H. 0 \<le> h" and len: "length (items c) = length H"
    and last: "itemTops (updateItemTops (c\<lparr>itemHeights := array_of H\<rparr>)) ! (length H - 1)
                 = Num lastTop"
    and below: "lastTop < scrollTop"
  shows "start_loop (updateItemTops (c\<lparr>itemHeights := array_of H\<rparr>)) scrollTop 0 = length H"
proof -
  let ?c = "updateItemTops (c\<lparr>itemHeights := array_of H\<rparr>)"
  have E: "elems (itemHeights (c\<lparr>itemHeights := array_of H\<rparr>)) = map Some H" by simp
  have k: "length H - 1 < length H" using assms(1) by simp
  from nth_itemTops_below [OF nonneg E k last, of 0]
  have pos: "0 < scrollTop" using below by auto
  have "js_lt (getItemTop ?c (int j + 1)) (Num scrollTop)" if "j < length (items ?c)" for j
  proof (cases "j + 1 < length H")
    case True
    then have "j + 1 \<le> length H - 1" by simp
    from nth_itemTops_below [OF nonneg E k last this] obtain a
      where "itemTops ?c ! (j + 1) = Num a" and "a \<le> lastTop" by blast
    then have "getItemTop ?c (int j + 1) = Num a"
      using True by (intro getItemTop_Num) (simp_all add: nat_add_distrib)
    then show ?thesis using \<open>a \<le> lastTop\<close> below by simp
  next
    case False
    then have "getItemTop ?c (int j + 1) = Num 0"
      by (intro getItemTop_out_of_range) simp
    then show ?thesis using pos by simp
  qed
  then have "start_loop ?c scrollTop 0 = length (items ?c)"
    by (intro start_loop_saturates) simp_all
  then show ?thesis using len by simp
qed

lemma new_component_fields [simp]:
  "items (new_component u) = []"
  "viewportHeight (new_component u) = 400"
  "buffer (new_component u) = 5"
  "initialItemHeight (new_component u) = 50"
  "itemHeights (new_component u) = array_of []"
  "itemTops (new_component u) = []"
  "totalContentHeight (new_component u) = Num 0"
  "visibleStart (new_component u) = 0"
  "visibleEnd (new_component u) = 0"
  "visibleItems (new_component u) = []"
  "observed (new_component u) = []"
  "emitted (new_component u) = []"
  by (simp_all add: new_component_def)

lemma ngOnChanges_other [simp]:
  "items (ngOnChanges its c) = its"
  "viewportHeight (ngOnChanges its c) = viewportHeight c"
  "buffer (ngOnChanges its c) = buffer c"
  "visibleStart (ngOnChanges its c) = visibleStart c"
  "visibleEnd (ngOnChanges its c) = visibleEnd c"
  "observed (ngOnChanges its c) = observed c"
  "itemHeights (ngOnChanges its c) = array_of (map (\<lambda>_. initialItemHeight c) its)"
  by (simp_all add: ngOnChanges_def initializeHeights_def)

lemma itemTops_ngOnChanges:
  "itemTops (ngOnChanges its c) =
     map (\<lambda>i. foldl add_height (Num 0) (take i (map (\<lambda>_. Some (initialItemHeight c)) its)))
       [0..<length its]"
  by (simp add: ngOnChanges_def initializeHeights_def itemTops_updateItemTops comp_def)

lemma onScroll_other [simp]:
  "viewportHeight (onScroll scrollTop els c) = viewportHeight c"
  "buffer (onScroll scrollTop els c) = buffer c"
  by (simp_all add: onScroll_def Let_def updateVisibleItems_def)

lemma onScroll_nothing_rendered:
  "itemHeights (onScroll scrollTop [] c) = itemHeights c"
  "observed (onScroll scrollTop [] c) = observed c"
  "itemTops (onScroll scrollTop [] c) = itemTops (updateItemTops c)"
  by (simp_all add: onScroll_def Let_def updateVisibleItems_def measureItemHeights_def
      itemTops_updateItemTops)

lemma itemTops_measureItemHeights_elems:
  "itemTops (measureItemHeights els c) =
     map (\<lambda>i. foldl add_height (Num 0) (take i (elems (itemHeights (measureItemHeights els c)))))
       [0..<length (elems (itemHeights (measureItemHeights els c)))]"
  by (simp add: measureItemHeights_def itemTops_updateItemTops)

lemma tall_last_item_fields:
  "items tall_last_item = [(), ()]"
  "viewportHeight tall_last_item = 400"
  "buffer tall_last_item = 0"
  "elems (itemHeights tall_last_item) = [Some 50, Some 500]"
  "props (itemHeights tall_last_item) = (\<lambda>_. None)"
  "itemTops tall_last_item = [Num 0, Num 50]"
proof -
  let ?s1 = "ngOnChanges [(), ()] ((new_component ())\<lparr>buffer := 0\<rparr>) :: unit component"
  let ?s2 = "onScroll 0 [] ?s1"
  have tops1: "itemTops ?s1 = [Num 0, Num 50]"
    by (simp add: itemTops_ngOnChanges)
  have start: "start_loop ?s1 0 0 = 0"
    by (simp add: start_loop.simps getItemTop_def tops1)
  have vs2: "visibleStart ?s2 = 0"
    by (simp add: visibleStart_onScroll start)
  have h2: "itemHeights ?s2 = array_of [50, 50]"
    by (simp add: onScroll_nothing_rendered)
  have h3: "itemHeights tall_last_item = \<lparr>elems = [Some 50, Some 500], props = (\<lambda>_. None)\<rparr>"
    unfolding tall_last_item_def
    by (simp add: measureItemHeights_def measure_element_def Let_def vs2 h2 arr_get_def
        arr_set_def array_of_def)
  show "elems (itemHeights tall_last_item) = [Some 50, Some 500]"
    and "props (itemHeights tall_last_item) = (\<lambda>_. None)"
    by (simp_all add: h3)
  then show "itemTops tall_last_item = [Num 0, Num 50]"
    unfolding tall_last_item_def by (simp add: itemTops_measureItemHeights_elems)
  show "items tall_last_item = [(), ()]" "viewportHeight tall_last_item = 400"
    "buffer tall_last_item = 0"
    by (simp_all add: tall_last_item_def)
qed

lemma estimate_50_measured_80:
  assumes "2 \<le> length its"
  shows "getItemTop (initializeHeights (c\<lparr>items := its, initialItemHeight := 50, visibleStart := 0\<rparr>)) 0 = Num 0"
    and "getItemTop (initializeHeights (c\<lparr>items := its, initialItemHeight := 50, visibleStart := 0\<rparr>)) 1 = Num 50"
    and "getItemTop (measureItemHeights [80]
           (initializeHeights (c\<lparr>items := its, initialItemHeight := 50, visibleStart := 0\<rparr>))) 0 = Num 0"
    and "getItemTop (measureItemHeights [80]
           (initializeHeights (c\<lparr>items := its, initialItemHeight := 50, visibleStart := 0\<rparr>))) 1 = Num 80"
proof -
  let ?c = "initializeHeights (c\<lparr>items := its, initialItemHeight := 50, visibleStart := 0\<rparr>)"
  obtain x y rest where its: "its = x # y # rest"
    using assms by (cases its; cases "tl its") auto
  have E: "elems (itemHeights ?c) = Some 50 # Some 50 # map (\<lambda>_. Some 50) rest"
    by (simp add: initializeHeights_def its)
  have tops: "itemTops ?c = itemTops (updateItemTops ?c)"
    by (simp add: initializeHeights_def itemTops_updateItemTops)
  have len: "length (itemTops ?c) = Suc (Suc (length rest))"
    by (simp add: tops E)
  have "itemTops ?c ! 0 = Num 0" and "itemTops ?c ! 1 = Num 50"
    by (simp_all add: tops nth_itemTops_updateItemTops E)
  then show "getItemTop ?c 0 = Num 0" and "getItemTop ?c 1 = Num 50"
    using len by (simp_all add: getItemTop_def)
  have vs: "visibleStart ?c = 0" by (simp add: initializeHeights_def)
  have idx0: "(0::nat) < length [80 :: real]" by simp
  have k: "(0::int) = visibleStart ?c + int 0" using vs by simp
  have k0: "(0::int) \<le> 0" by simp
  have kn: "(0::int) < int (length (elems (itemHeights ?c)))" by (simp add: E)
  have others: "\<And>idx. idx < length [80 :: real] \<Longrightarrow> idx \<noteq> 0 \<Longrightarrow>
      arr_get (itemHeights ?c) (visibleStart ?c + int idx) = Some ([80] ! idx)" by simp
  have E': "elems (itemHeights (measureItemHeights [80] ?c))
              = Some 80 # Some 50 # map (\<lambda>_. Some 50) rest"
    using single_correction_frame(3) [OF idx0 k k0 kn others] by (simp add: E)
  have "itemTops (measureItemHeights [80] ?c) ! 0 = Num 0"
    and "itemTops (measureItemHeights [80] ?c) ! 1 = Num 80"
    by (simp_all add: itemTops_measureItemHeights E')
  moreover have "length (itemTops (measureItemHeights [80] ?c)) = Suc (Suc (length rest))"
    by (simp add: measureItemHeights_def E' [unfolded measureItemHeights_def, simplified])
  ultimately show "getItemTop (measureItemHeights [80] ?c) 0 = Num 0"
    and "getItemTop (measureItemHeights [80] ?c) 1 = Num 80"
    by (simp_all add: getItemTop_def)
qed

lemma four_items_tops:
  "itemTops (ngOnChanges ''abcd'' c) =
     [Num 0, fl (initialItemHeight c),
      js_add (fl (initialItemHeight c)) (Num (initialItemHeight c)),
      js_add (js_add (fl (initialItemHeight c)) (Num (initialItemHeight c)))
        (Num (initialItemHeight c))]"
  by (simp add: itemTops_ngOnChanges upt_rec)

lemma initialItemHeight_measure_element [simp]:
  "initialItemHeight (measure_element el c) = initialItemHeight c"
  by (simp add: measure_element_def Let_def)

lemma initialItemHeight_fold_measure_element [simp]:
  "initialItemHeight (fold measure_element els c) = initialItemHeight c"
  by (induction els arbitrary: c) simp_all

lemma initialItemHeight_kept [simp]:
  "initialItemHeight (measureItemHeights els c) = initialItemHeight c"
  "initialItemHeight (ngOnChanges its c) = initialItemHeight c"
  "initialItemHeight (onScroll scrollTop els' c) = initialItemHeight c"
  by (simp_all add: measureItemHeights_def ngOnChanges_def initializeHeights_def onScroll_def
      Let_def updateVisibleItems_def)

lemma list_shrunk_while_scrolled_fields:
  "elems (itemHeights list_shrunk_while_scrolled) = [Some 50, None, Some 20]"
  "itemTops list_shrunk_while_scrolled = [Num 0, Num 50, NaN]"
  "visibleStart list_shrunk_while_scrolled = 2"
proof -
  let ?s1 = "ngOnChanges [(), (), ()] ((new_component ())\<lparr>buffer := 1, viewportHeight := 40\<rparr>)
               :: unit component"
  let ?s2 = "onScroll 110 [] ?s1"
  let ?s3 = "ngOnChanges [()] ?s2"
  have tops1: "itemTops ?s1 = [Num 0, Num 50, Num 100]"
    by (simp add: itemTops_ngOnChanges upt_rec)
  have start: "start_loop ?s1 110 0 = 3"
    by (simp add: start_loop.simps getItemTop_def tops1)
  have vs2: "visibleStart ?s2 = 2"
    by (simp add: visibleStart_onScroll start)
  then have vs3: "visibleStart ?s3 = 2" by simp
  have h4: "itemHeights list_shrunk_while_scrolled
              = \<lparr>elems = [Some 50, None, Some 20], props = (\<lambda>_. None)\<rparr>"
    unfolding list_shrunk_while_scrolled_def
    by (simp add: measureItemHeights_def measure_element_def Let_def vs2 arr_get_def
        arr_set_def array_of_def)
  then show "elems (itemHeights list_shrunk_while_scrolled) = [Some 50, None, Some 20]"
    by simp
  then show "itemTops list_shrunk_while_scrolled = [Num 0, Num 50, NaN]"
    unfolding list_shrunk_while_scrolled_def
    by (simp add: itemTops_measureItemHeights_elems upt_rec)
  show "visibleStart list_shrunk_while_scrolled = 2"
    unfolding list_shrunk_while_scrolled_def using vs3 by simp
qed

lemma or_zero_Some: "t \<noteq> NaN \<Longrightarrow> or_zero (Some t) = t"
  by (cases t) auto

lemma fl_not_NaN [simp]: "fl x \<noteq> NaN"
  by (simp add: fl_def Let_def)

lemma offsets_not_NaN:
  "t \<noteq> NaN \<Longrightarrow> foldl add_height t (map Some H) \<noteq> NaN"
proof (induction H arbitrary: t)
  case Nil
  then show ?case by simp
next
  case (Cons h H)
  have "js_add t (Num h) \<noteq> NaN" using Cons.prems by (cases t) simp_all
  then show ?case using Cons.IH by simp
qed

text \<open>
  Where the range of \<open>onScroll\<close> does cover what is on screen: for offsets built from
  non-negative heights, a buffer that is not negative, and a scroll position and viewport
  bottom that are binary64 values, every item whose extent meets the viewport lies in the
  range, unless it is the last item, the buffer is 0 and the scroll position is above
  that item's top.
\<close>

lemma onScroll_covers_visible_items:
  fixes H :: "real list"
  assumes nonneg: "\<forall>h\<in>set H. 0 \<le> h" and len: "length (items c) = length H"
    and buf: "0 \<le> buffer c" and i: "i < length H"
    and meets: "intersects_viewport (updateItemTops (c\<lparr>itemHeights := array_of H\<rparr>))
                  scrollTop (int i)"
    and dbl: "is_double scrollTop" "is_double (scrollTop + viewportHeight c)"
    and safe: "i + 1 < length H \<or> 1 \<le> buffer c
               \<or> \<not> js_lt (itemTops (updateItemTops (c\<lparr>itemHeights := array_of H\<rparr>))
                           ! (length H - 1)) (Num scrollTop)"
  shows "visibleStart (onScroll scrollTop els (updateItemTops (c\<lparr>itemHeights := array_of H\<rparr>)))
           \<le> int i
       \<and> int i < visibleEnd (onScroll scrollTop els (updateItemTops (c\<lparr>itemHeights := array_of H\<rparr>)))"
proof -
  let ?c = "updateItemTops (c\<lparr>itemHeights := array_of H\<rparr>)"
  let ?start = "start_loop ?c scrollTop 0"
  let ?vb = "js_add (Num scrollTop) (Num (viewportHeight ?c))"
  let ?end = "end_loop ?c ?vb ?start"
  let ?n = "length H"
  have E: "elems (itemHeights (c\<lparr>itemHeights := array_of H\<rparr>)) = map Some H" by simp
  have items: "length (items ?c) = ?n" using len by simp
  have tops_len: "length (itemTops ?c) = ?n" by simp
  have stored: "getItemTop ?c (int j) = itemTops ?c ! j" if "j < ?n" for j
  proof -
    have "itemTops ?c ! j \<noteq> NaN"
      using that offsets_not_NaN [of "Num 0" "take j H"]
      by (simp add: nth_itemTops_updateItemTops take_map)
    then show ?thesis using that by (simp add: getItemTop_def or_zero_Some)
  qed
  have h: "arr_get (itemHeights ?c) (int i) = Some (H ! i)"
    using i by (simp add: arr_get_def)
  from meets h obtain t where t: "getItemTop ?c (int i) = Num t"
    and above: "t < scrollTop + viewportHeight c" and below: "scrollTop < t + H ! i"
    by (auto simp: intersects_viewport_def split: number.splits)
  have top_i: "itemTops ?c ! i = Num t" using stored [OF i] t by simp
  have vb: "?vb = Num (scrollTop + viewportHeight c)"
    using dbl(2) by (simp add: is_double_def)
  have start_n: "?start \<le> ?n" using start_loop_le [of 0 ?c scrollTop] items by simp
  have first: "visibleStart (onScroll scrollTop els ?c) \<le> int i"
  proof (cases "?start \<le> i")
    case True
    then show ?thesis using buf by (simp add: visibleStart_onScroll)
  next
    case False
    then have passed: "i < ?start" by simp
    from start_loop_skipped [OF _ passed]
    have next_top: "js_lt (getItemTop ?c (int i + 1)) (Num scrollTop)" by simp
    have last: "i + 1 = ?n"
    proof (rule ccontr)
      assume "i + 1 \<noteq> ?n"
      then have lt: "Suc i < ?n" using i by simp
      have "itemTops ?c ! Suc i = fl (t + H ! i)"
        using nth_itemTops_step [of i "c\<lparr>itemHeights := array_of H\<rparr>"] lt top_i by simp
      then have "js_lt (fl (t + H ! i)) (Num scrollTop)"
        using next_top stored [OF lt] by (simp add: add.commute)
      then have "js_lt (fl scrollTop) (Num scrollTop)"
        using below by (intro fl_mono_lt_left [of scrollTop "t + H ! i"]) simp_all
      then show False using dbl(1) by (simp add: is_double_def)
    qed
    then have start: "?start = ?n" using passed start_n by simp
    have idx: "?n - 1 = i" using last by simp
    have "js_lt (itemTops ?c ! i) (Num scrollTop)"
    proof (cases i)
      case 0
      then have "getItemTop ?c (int i + 1) = Num 0"
        using last by (intro getItemTop_out_of_range) simp
      moreover have "t = 0"
        using top_i 0 i by (simp add: nth_itemTops_updateItemTops)
      ultimately show ?thesis using next_top top_i by simp
    next
      case (Suc j)
      then have "j < ?start" using passed by simp
      from start_loop_skipped [OF _ this] Suc
      have "js_lt (getItemTop ?c (int i)) (Num scrollTop)" by (simp add: add.commute)
      then show ?thesis using stored [OF i] by simp
    qed
    then have "js_lt (itemTops ?c ! (?n - 1)) (Num scrollTop)" using idx by simp
    with safe last have "1 \<le> buffer c" by simp
    then show ?thesis using start last by (simp add: visibleStart_onScroll)
  qed
  have "i < ?end"
  proof (rule ccontr)
    assume "\<not> i < ?end"
    then have e: "?end \<le> i" by simp
    then have en: "?end < length (items ?c)" using i items by simp
    from end_loop_stops [OF en]
    have stop: "\<not> js_lt (getItemTop ?c (int ?end)) ?vb" .
    from nth_itemTops_below [OF nonneg E i top_i e] obtain a
      where a: "itemTops ?c ! ?end = Num a" and "a \<le> t" by blast
    have "getItemTop ?c (int ?end) = Num a" using stored [of ?end] a en items by simp
    then show False using stop vb \<open>a \<le> t\<close> above by simp
  qed
  then have "int i < visibleEnd (onScroll scrollTop els ?c)"
    using buf i len by (simp add: visibleEnd_onScroll)
  with first show ?thesis by simp
qed

section \<open>The claims\<close>

text \<open>
  Claim C1 asks that the range computed by \<open>onScroll\<close> contain every item whose extent
  meets the viewport. The code misses the last item: in the history \<open>tall_last_item\<close>
  the offsets are 0 and 50 and the heights 50 and 500, and at scroll position 100 item 1
  covers the whole viewport \<open>[100, 500)\<close>, yet the first loop runs past it (its test for
  the last item reads \<open>getItemTop(2)\<close>, which is out of range and so 0) and the range
  is \<open>(2, 2)\<close>. The theorem evaluates the code there.
\<close>

theorem C1_last_item_left_out:
  "visibleStart (onScroll 100 [50, 500] tall_last_item) = 2
   \<and> visibleEnd (onScroll 100 [50, 500] tall_last_item) = 2
   \<and> length (items tall_last_item) = 2
   \<and> itemTops tall_last_item = [Num 0, Num 50]
   \<and> elems (itemHeights tall_last_item) = [Some 50, Some 500]
   \<and> viewportHeight tall_last_item = 400
   \<and> buffer tall_last_item = 0
   \<and> intersects_viewport tall_last_item 100 1"
proof -
  have start: "start_loop tall_last_item 100 0 = 2"
    by (simp add: start_loop.simps getItemTop_def tall_last_item_fields)
  have "end_loop tall_last_item (js_add (Num 100) (Num 400)) 2 = 2"
    by (simp add: end_loop.simps tall_last_item_fields)
  then show ?thesis
    by (simp add: visibleStart_onScroll visibleEnd_onScroll start tall_last_item_fields
        intersects_viewport_def arr_get_def getItemTop_def)
qed

text \<open>
  Claim C2. Measuring an element whose height is already the stored one changes nothing;
  a batch of such measurements leaves the height store as it was and reports no change;
  and after any batch has been reconciled, reconciling the same batch again, from the
  same \<open>visibleStart\<close>, reports no change. The batch is the list of rendered elements,
  so every local index occurs once.
\<close>

theorem C2_reconcile_idempotent:
  "(arr_get (itemHeights c) (visibleStart c + int idx) = Some h \<longrightarrow>
      measure_element (idx, h) c = c)
   \<and> ((\<forall>idx. idx < length els \<longrightarrow>
          arr_get (itemHeights c) (visibleStart c + int idx) = Some (els ! idx)) \<longrightarrow>
        itemHeights (measureItemHeights els c) = itemHeights c \<and> \<not> changed els c)
   \<and> \<not> changed els (measureItemHeights els c)"
proof -
  have noop: "itemHeights (measureItemHeights els' c') = itemHeights c' \<and> \<not> changed els' c'"
    if "\<And>idx. idx < length els' \<Longrightarrow>
          arr_get (itemHeights c') (visibleStart c' + int idx) = Some (els' ! idx)"
    for els' and c' :: "'a component"
  proof -
    have "fold measure_element (enumerate 0 els') c' = c'"
      using that by (rule measured_batch_noop)
    then show ?thesis by (simp add: changed_def measureItemHeights_def)
  qed
  have "arr_get (itemHeights (measureItemHeights els c))
          (visibleStart (measureItemHeights els c) + int idx) = Some (els ! idx)"
    if "idx < length els" for idx
    using that by (simp add: arr_get_measureItemHeights)
  then have "\<not> changed els (measureItemHeights els c)" using noop by blast
  then show ?thesis using noop [of els c] measure_element_noop [of c idx h] by blast
qed

theorem C2_reconcile_idempotent_witness:
  "arr_get (itemHeights (ngOnChanges ''abc'' (new_component ()))) (visibleStart (ngOnChanges ''abc'' (new_component ())) + int 1) = Some 50
   \<and> measure_element (1, 50) (ngOnChanges ''abc'' (new_component ())) = ngOnChanges ''abc'' (new_component ())
   \<and> itemHeights (measureItemHeights [50, 50] (ngOnChanges ''abc'' (new_component ())))
       = itemHeights (ngOnChanges ''abc'' (new_component ()))
   \<and> \<not> changed [50, 50] (ngOnChanges ''abc'' (new_component ()))
   \<and> changed [80, 50] (ngOnChanges ''abc'' (new_component ()))
   \<and> \<not> changed [80, 50] (measureItemHeights [80, 50] (ngOnChanges ''abc'' (new_component ())))"
proof -
  let ?c = "ngOnChanges ''abc'' (new_component ())"
  have zero: "arr_get (itemHeights ?c) (visibleStart ?c + int 0) = Some 50"
    and one: "arr_get (itemHeights ?c) (visibleStart ?c + int 1) = Some 50"
    by (simp_all add: arr_get_def)
  have "arr_get (itemHeights ?c) (visibleStart ?c + int idx) = Some ([50, 50] ! idx)"
    if "idx < length [50, 50 :: real]" for idx
  proof -
    from that have "idx = 0 \<or> idx = 1" by auto
    then show ?thesis using zero one by auto
  qed
  then have all: "\<forall>idx. idx < length [50, 50 :: real] \<longrightarrow>
      arr_get (itemHeights ?c) (visibleStart ?c + int idx) = Some ([50, 50] ! idx)" by blast
  from C2_reconcile_idempotent [of ?c 1 50 "[50, 50]"] one all
  have "measure_element (1, 50) ?c = ?c"
    and "itemHeights (measureItemHeights [50, 50] ?c) = itemHeights ?c"
    and "\<not> changed [50, 50] ?c"
    by blast+
  moreover have "changed [80, 50] ?c"
    by (simp add: changed_def measureItemHeights_def measure_element_def Let_def arr_get_def)
  moreover from C2_reconcile_idempotent [of ?c 1 50 "[80, 50]"]
  have "\<not> changed [80, 50] (measureItemHeights [80, 50] ?c)" by blast
  ultimately show ?thesis using one by simp
qed

text \<open>
  Claim C3 says that every offset is the one before it plus the height before it and that
  \<open>totalContentHeight\<close> is exactly the sum of the heights. The code adds in binary64
  arithmetic, where a sum is rounded: for the heights \<open>2\<^sup>5\<^sup>3\<close>, 1 and 1 the third
  offset and the total are both \<open>2\<^sup>5\<^sup>3\<close>, not \<open>2\<^sup>5\<^sup>3 + 1\<close> and \<open>2\<^sup>5\<^sup>3 + 2\<close>.
\<close>

theorem C3_rounded_sum_counterexample:
  "elems (itemHeights absorbed_heights) = [Some 9007199254740992, Some 1, Some 1]
   \<and> itemTops absorbed_heights = [Num 0, Num 9007199254740992, Num 9007199254740992]
   \<and> itemTops absorbed_heights ! 2 \<noteq> Num (9007199254740992 + 1)
   \<and> totalContentHeight absorbed_heights = Num 9007199254740992
   \<and> totalContentHeight absorbed_heights \<noteq> Num (sum_list [9007199254740992, 1, 1])"
  by (simp add: absorbed_heights_def updateItemTops_def)

text \<open>
  Claim C3, amended. For a height store holding the numbers \<open>H\<close>, \<open>updateItemTops\<close>
  leaves as many offsets as heights; the first offset is 0; every later offset is the
  binary64 sum of the offset before it and the height before it; \<open>totalContentHeight\<close>
  is the binary64 sum of the last offset and the last height; for the empty store the
  offsets are empty and the total is 0. Whenever every partial sum of \<open>H\<close> is a
  binary64 value, as for integer heights with sums up to \<open>2\<^sup>5\<^sup>3\<close>, the offsets are the
  exact partial sums and the total is exactly the sum of \<open>H\<close>.
\<close>

theorem C3_updateItemTops_rounded_sums:
  fixes H :: "real list"
  shows "(let c' = updateItemTops (c\<lparr>itemHeights := array_of H\<rparr>) in
           length (itemTops c') = length H
         \<and> (H \<noteq> [] \<longrightarrow> itemTops c' ! 0 = Num 0)
         \<and> (\<forall>i. 1 \<le> i \<and> i < length H \<longrightarrow>
               itemTops c' ! i = js_add (itemTops c' ! (i - 1)) (Num (H ! (i - 1))))
         \<and> (H \<noteq> [] \<longrightarrow>
               totalContentHeight c' = js_add (itemTops c' ! (length H - 1)) (Num (last H)))
         \<and> (H = [] \<longrightarrow> itemTops c' = [] \<and> totalContentHeight c' = Num 0)
         \<and> ((\<forall>i. i \<le> length H \<longrightarrow> is_double (sum_list (take i H))) \<longrightarrow>
               (\<forall>i. i < length H \<longrightarrow> itemTops c' ! i = Num (sum_list (take i H)))
             \<and> totalContentHeight c' = Num (sum_list H)))"
proof -
  let ?c = "updateItemTops (c\<lparr>itemHeights := array_of H\<rparr>)"
  have E: "elems (itemHeights (c\<lparr>itemHeights := array_of H\<rparr>)) = map Some H" by simp
  have len: "length (itemTops ?c) = length H" by simp
  have first: "itemTops ?c ! 0 = Num 0" if "H \<noteq> []"
    using that by (simp add: nth_itemTops_updateItemTops)
  have step: "itemTops ?c ! i = js_add (itemTops ?c ! (i - 1)) (Num (H ! (i - 1)))"
    if pos: "1 \<le> i" and lt: "i < length H" for i
  proof -
    obtain k where i: "i = Suc k" using pos by (cases i) auto
    show ?thesis using nth_itemTops_step [of k "c\<lparr>itemHeights := array_of H\<rparr>"] lt i by simp
  qed
  have total: "totalContentHeight ?c = js_add (itemTops ?c ! (length H - 1)) (Num (last H))"
    if "H \<noteq> []"
    using that totalContentHeight_step [of "c\<lparr>itemHeights := array_of H\<rparr>"]
    by (simp add: last_map)
  have empty: "itemTops ?c = [] \<and> totalContentHeight ?c = Num 0" if "H = []"
    using that by (simp add: itemTops_updateItemTops totalContentHeight_updateItemTops)
  have exact: "(\<forall>i. i < length H \<longrightarrow> itemTops ?c ! i = Num (sum_list (take i H)))
             \<and> totalContentHeight ?c = Num (sum_list H)"
    if dbl: "\<forall>i. i \<le> length H \<longrightarrow> is_double (sum_list (take i H))"
  proof -
    have sums: "foldl add_height (Num 0) (map Some (take i H)) = Num (0 + sum_list (take i H))"
      if "i \<le> length H" for i
    proof (rule foldl_add_height_exact)
      fix j assume "j \<le> length (take i H)"
      then have "take j (take i H) = take j H" and "j \<le> length H"
        using that by (simp_all add: min_absorb1)
      then show "is_double (0 + sum_list (take j (take i H)))" using dbl by simp
    qed
    have "foldl add_height (Num 0) (map Some H) = Num (sum_list H)"
      using sums [of "length H"] by simp
    then show ?thesis
      using sums by (simp add: nth_itemTops_updateItemTops totalContentHeight_updateItemTops take_map)
  qed
  show ?thesis
    unfolding Let_def using len first step total empty exact by blast
qed

theorem C3_updateItemTops_rounded_sums_witness:
  "length (itemTops (updateItemTops ((new_component ())\<lparr>itemHeights := array_of [50, 80, 20]\<rparr> :: unit component))) = 3
   \<and> itemTops (updateItemTops ((new_component ())\<lparr>itemHeights := array_of [50, 80, 20]\<rparr> :: unit component)) ! 0 = Num 0
   \<and> itemTops (updateItemTops ((new_component ())\<lparr>itemHeights := array_of [50, 80, 20]\<rparr> :: unit component)) ! 1 = Num 50
   \<and> itemTops (updateItemTops ((new_component ())\<lparr>itemHeights := array_of [50, 80, 20]\<rparr> :: unit component)) ! 2 = Num 130
   \<and> totalContentHeight (updateItemTops ((new_component ())\<lparr>itemHeights := array_of [50, 80, 20]\<rparr> :: unit component)) = Num 150
   \<and> itemTops (updateItemTops ((new_component ())\<lparr>itemHeights := array_of []\<rparr> :: unit component)) = []
   \<and> totalContentHeight (updateItemTops ((new_component ())\<lparr>itemHeights := array_of []\<rparr> :: unit component)) = Num 0"
proof -
  let ?c = "updateItemTops ((new_component ())\<lparr>itemHeights := array_of [50, 80, 20]\<rparr> :: unit component)"
  have ne: "[50, 80, 20] \<noteq> ([] :: real list)" by simp
  have "is_double (sum_list (take i [50, 80, 20]))" if "i \<le> length [50, 80, 20 :: real]" for i
  proof -
    from that have "i = 0 \<or> i = 1 \<or> i = 2 \<or> i = 3" by auto
    then show ?thesis by auto
  qed
  then have dbl: "\<forall>i. i \<le> length [50, 80, 20 :: real] \<longrightarrow>
      is_double (sum_list (take i [50, 80, 20]))" by blast
  note built = C3_updateItemTops_rounded_sums
    [where c = "new_component () :: unit component" and H = "[50, 80, 20]", unfolded Let_def]
  from built have len: "length (itemTops ?c) = 3" by simp
  from built ne have z: "itemTops ?c ! 0 = Num 0" by blast
  from built dbl have sums: "\<forall>i. i < length [50, 80, 20 :: real] \<longrightarrow>
      itemTops ?c ! i = Num (sum_list (take i [50, 80, 20]))"
    and tot: "totalContentHeight ?c = Num (sum_list [50, 80, 20])" by blast+
  from sums have n1: "itemTops ?c ! 1 = Num 50" and n2: "itemTops ?c ! 2 = Num 130"
    by (simp_all add: numeral_2_eq_2)
  from C3_updateItemTops_rounded_sums [where c = "new_component () :: unit component" and H = "[]"]
  have "itemTops (updateItemTops ((new_component ())\<lparr>itemHeights := array_of []\<rparr> :: unit component)) = []
       \<and> totalContentHeight (updateItemTops ((new_component ())\<lparr>itemHeights := array_of []\<rparr> :: unit component)) = Num 0"
    unfolding Let_def by simp
  then show ?thesis using len z n1 n2 tot by simp
qed

text \<open>
  Claim C4. With the component otherwise unchanged, a larger scroll position never gives
  a smaller \<open>visibleStart\<close> or a smaller \<open>visibleEnd\<close>. This holds for every
  offset table, viewport height and buffer, whatever elements are measured on the way;
  tables built from non-negative heights are a special case.
\<close>

theorem C4_monotone_in_scrollTop:
  assumes "scrollTop \<le> scrollTop'"
  shows "visibleStart (onScroll scrollTop els c) \<le> visibleStart (onScroll scrollTop' els' c)
       \<and> visibleEnd (onScroll scrollTop els c) \<le> visibleEnd (onScroll scrollTop' els' c)"
proof -
  have s: "start_loop c scrollTop 0 \<le> start_loop c scrollTop' 0"
    using assms by (intro start_loop_mono) simp_all
  have "js_lt t (js_add (Num scrollTop') (Num (viewportHeight c)))"
    if "js_lt t (js_add (Num scrollTop) (Num (viewportHeight c)))" for t
    using that assms fl_mono_lt [of "scrollTop + viewportHeight c" "scrollTop' + viewportHeight c" t]
    by simp
  then have "end_loop c (js_add (Num scrollTop) (Num (viewportHeight c))) (start_loop c scrollTop 0)
        \<le> end_loop c (js_add (Num scrollTop') (Num (viewportHeight c))) (start_loop c scrollTop' 0)"
    using s by (intro end_loop_mono)
  with s show ?thesis
    unfolding visibleStart_onScroll visibleEnd_onScroll by linarith
qed

theorem C4_monotone_in_scrollTop_witness:
  "(100::real) \<le> 130
   \<and> visibleStart (onScroll 100 [] (ngOnChanges ''abcd'' ((new_component ())\<lparr>buffer := 1\<rparr>))) = 0
   \<and> visibleStart (onScroll 130 [] (ngOnChanges ''abcd'' ((new_component ())\<lparr>buffer := 1\<rparr>))) = 1
   \<and> visibleEnd (onScroll 100 [] (ngOnChanges ''abcd'' ((new_component ())\<lparr>buffer := 1\<rparr>)))
     \<le> visibleEnd (onScroll 130 [] (ngOnChanges ''abcd'' ((new_component ())\<lparr>buffer := 1\<rparr>)))"
proof -
  let ?c = "ngOnChanges ''abcd'' ((new_component ())\<lparr>buffer := 1\<rparr>)"
  have le: "(100::real) \<le> 130" by simp
  have tops: "itemTops ?c = [Num 0, Num 50, Num 100, Num 150]"
    by (simp add: four_items_tops)
  have "start_loop ?c 100 0 = 1" and "start_loop ?c 130 0 = 2"
    by (simp_all add: start_loop.simps getItemTop_def tops)
  then have "visibleStart (onScroll 100 [] ?c) = 0" and "visibleStart (onScroll 130 [] ?c) = 1"
    by (simp_all add: visibleStart_onScroll)
  then show ?thesis
    using le C4_monotone_in_scrollTop [OF le, of "[]" ?c "[]"] by simp
qed

text \<open>
  Claim C5 says that scrolling to the total content height always gives
  \<open>visibleStart = max 0 (items.length - buffer)\<close>. With the strictly positive heights
  \<open>2\<^sup>5\<^sup>3\<close> and 1 the total is \<open>2\<^sup>5\<^sup>3\<close>, the same as the top of the last item, because
  the last addition rounds; at that scroll position the first loop stops at once, and
  with a buffer of 0 the range is \<open>(0, 2)\<close>, not \<open>(2, 2)\<close>.
\<close>

theorem C5_absorbed_height_counterexample:
  "elems (itemHeights absorbed_last_height) = [Some 9007199254740992, Some 1]
   \<and> length (items absorbed_last_height) = 2
   \<and> buffer absorbed_last_height = 0
   \<and> totalContentHeight absorbed_last_height = Num 9007199254740992
   \<and> visibleStart (onScroll 9007199254740992 [] absorbed_last_height) = 0
   \<and> visibleEnd (onScroll 9007199254740992 [] absorbed_last_height) = 2
   \<and> visibleStart (onScroll 9007199254740992 [] absorbed_last_height)
       \<noteq> max 0 (int (length (items absorbed_last_height)) - buffer absorbed_last_height)"
proof -
  have fields: "items absorbed_last_height = [(), ()]" "buffer absorbed_last_height = 0"
    "viewportHeight absorbed_last_height = 400"
    "elems (itemHeights absorbed_last_height) = [Some 9007199254740992, Some 1]"
    "itemTops absorbed_last_height = [Num 0, Num 9007199254740992]"
    "totalContentHeight absorbed_last_height = Num 9007199254740992"
    by (simp_all add: absorbed_last_height_def itemTops_updateItemTops
        totalContentHeight_updateItemTops upt_rec)
  have start: "start_loop absorbed_last_height 9007199254740992 0 = 0"
    by (simp add: start_loop.simps getItemTop_def fields)
  have "end_loop absorbed_last_height (js_add (Num 9007199254740992) (Num 400)) 0 = 2"
    by (simp add: end_loop.simps getItemTop_def fields)
  then show ?thesis
    by (simp add: visibleStart_onScroll visibleEnd_onScroll start fields)
qed

text \<open>
  Claim C5, amended. For a non-empty list whose heights are all strictly positive and a
  buffer that is not negative, scrolling to exactly the total content height gives
  \<open>visibleEnd = items.length\<close> and \<open>visibleStart = max 0 (items.length - buffer)\<close>,
  provided the total as computed is strictly greater than the top offset of the last
  item. That is so whenever every partial sum of the heights is a binary64 value.
\<close>

theorem C5_scrolled_to_total_height:
  fixes H :: "real list"
  assumes "H \<noteq> []" and "\<forall>h\<in>set H. 0 < h" and "length (items c) = length H"
    and "0 \<le> buffer c"
  shows "(totalContentHeight (updateItemTops (c\<lparr>itemHeights := array_of H\<rparr>)) = Num scrollTop
          \<and> itemTops (updateItemTops (c\<lparr>itemHeights := array_of H\<rparr>)) ! (length H - 1) = Num lastTop
          \<and> lastTop < scrollTop \<longrightarrow>
            visibleEnd (onScroll scrollTop els (updateItemTops (c\<lparr>itemHeights := array_of H\<rparr>)))
              = int (length (items c))
          \<and> visibleStart (onScroll scrollTop els (updateItemTops (c\<lparr>itemHeights := array_of H\<rparr>)))
              = max 0 (int (length (items c)) - buffer c))
       \<and> ((\<forall>i. i \<le> length H \<longrightarrow> is_double (sum_list (take i H))) \<longrightarrow>
            totalContentHeight (updateItemTops (c\<lparr>itemHeights := array_of H\<rparr>)) = Num (sum_list H)
          \<and> visibleEnd (onScroll (sum_list H) els (updateItemTops (c\<lparr>itemHeights := array_of H\<rparr>)))
              = int (length (items c))
          \<and> visibleStart (onScroll (sum_list H) els (updateItemTops (c\<lparr>itemHeights := array_of H\<rparr>)))
              = max 0 (int (length (items c)) - buffer c))"
proof -
  let ?c = "updateItemTops (c\<lparr>itemHeights := array_of H\<rparr>)"
  have nonneg: "\<forall>h\<in>set H. 0 \<le> h" using assms(2) by (simp add: less_imp_le)
  have range: "visibleEnd (onScroll s els ?c) = int (length (items c))
      \<and> visibleStart (onScroll s els ?c) = max 0 (int (length (items c)) - buffer c)"
    if last: "itemTops ?c ! (length H - 1) = Num lastTop'" and below: "lastTop' < s"
    for s lastTop'
  proof -
    have start: "start_loop ?c s 0 = length H"
      using assms(1) nonneg assms(3) last below by (rule start_loop_past_last_top)
    have "end_loop ?c (js_add (Num s) (Num (viewportHeight ?c))) (length H) = length H"
      using assms(3) by (simp add: end_loop_exit)
    with start show ?thesis
      using assms(3,4) by (simp add: visibleStart_onScroll visibleEnd_onScroll)
  qed
  have exact: "totalContentHeight ?c = Num (sum_list H)
      \<and> visibleEnd (onScroll (sum_list H) els ?c) = int (length (items c))
      \<and> visibleStart (onScroll (sum_list H) els ?c) = max 0 (int (length (items c)) - buffer c)"
    if dbl: "\<forall>i. i \<le> length H \<longrightarrow> is_double (sum_list (take i H))"
  proof -
    have E: "elems (itemHeights (c\<lparr>itemHeights := array_of H\<rparr>)) = map Some H" by simp
    have sums: "foldl add_height (Num 0) (map Some (take i H)) = Num (0 + sum_list (take i H))"
      if "i \<le> length H" for i
    proof (rule foldl_add_height_exact)
      fix j assume "j \<le> length (take i H)"
      then have "take j (take i H) = take j H" and "j \<le> length H"
        using that by (simp_all add: min_absorb1)
      then show "is_double (0 + sum_list (take j (take i H)))" using dbl by simp
    qed
    have total: "totalContentHeight ?c = Num (sum_list H)"
      using sums [of "length H"] by (simp add: totalContentHeight_updateItemTops)
    have last: "itemTops ?c ! (length H - 1) = Num (sum_list (butlast H))"
      using sums [of "length H - 1"] assms(1)
      by (simp add: nth_itemTops_updateItemTops take_map butlast_conv_take)
    have "sum_list H = sum_list (butlast H) + last H"
      using assms(1) by (metis append_butlast_last_id sum_list.Cons sum_list.Nil sum_list.append
          add.right_neutral)
    moreover have "0 < last H" using assms(1,2) by simp
    ultimately have "sum_list (butlast H) < sum_list H" by simp
    with range [OF last] total show ?thesis by simp
  qed
  show ?thesis using range exact by blast
qed

theorem C5_scrolled_to_total_height_witness:
  "[50, 80, 20] \<noteq> ([] :: real list) \<and> list_all (\<lambda>h. 0 < h) [50, 80, 20 :: real]
   \<and> length (items ((new_component ())\<lparr>items := ''abc''\<rparr>)) = length [50, 80, 20 :: real]
   \<and> 0 \<le> buffer ((new_component ())\<lparr>items := ''abc''\<rparr>)
   \<and> totalContentHeight (updateItemTops ((new_component ())\<lparr>items := ''abc'', itemHeights := array_of [50, 80, 20]\<rparr>)) = Num 150
   \<and> itemTops (updateItemTops ((new_component ())\<lparr>items := ''abc'', itemHeights := array_of [50, 80, 20]\<rparr>)) ! (length [50, 80, 20 :: real] - 1) = Num 130
   \<and> (130 :: real) < 150
   \<and> is_double 0 \<and> is_double 50 \<and> is_double 130 \<and> is_double 150
   \<and> visibleEnd (onScroll 150 [] (updateItemTops ((new_component ())\<lparr>items := ''abc'', itemHeights := array_of [50, 80, 20]\<rparr>))) = 3
   \<and> visibleStart (onScroll 150 [] (updateItemTops ((new_component ())\<lparr>items := ''abc'', itemHeights := array_of [50, 80, 20]\<rparr>))) = 0
   \<and> visibleEnd (onScroll (sum_list [50, 80, 20]) [] (updateItemTops ((new_component ())\<lparr>items := ''abc'', itemHeights := array_of [50, 80, 20]\<rparr>))) = 3"
proof -
  let ?c = "(new_component ())\<lparr>items := ''abc''\<rparr> :: char component"
  have h1: "[50, 80, 20] \<noteq> ([] :: real list)" by simp
  have h2: "\<forall>h\<in>set [50, 80, 20 :: real]. 0 < h" by simp
  have h3: "length (items ?c) = length [50, 80, 20 :: real]" by simp
  have h4: "0 \<le> buffer ?c" by simp
  have h5: "totalContentHeight (updateItemTops (?c\<lparr>itemHeights := array_of [50, 80, 20]\<rparr>)) = Num 150"
    by (simp add: totalContentHeight_updateItemTops)
  have h6: "itemTops (updateItemTops (?c\<lparr>itemHeights := array_of [50, 80, 20]\<rparr>))
              ! (length [50, 80, 20 :: real] - 1) = Num 130"
    by (simp add: nth_itemTops_updateItemTops)
  have h7: "(130 :: real) < 150" by simp
  have "is_double (sum_list (take i [50, 80, 20]))" if "i \<le> length [50, 80, 20 :: real]" for i
  proof -
    from that have "i = 0 \<or> i = 1 \<or> i = 2 \<or> i = 3" by auto
    then show ?thesis by auto
  qed
  then have dbl: "\<forall>i. i \<le> length [50, 80, 20 :: real] \<longrightarrow>
      is_double (sum_list (take i [50, 80, 20]))" by blast
  note at_total = C5_scrolled_to_total_height
    [OF h1 h2 h3 h4, where scrollTop = 150 and lastTop = 130 and els = "[]"]
  from at_total h5 h6 h7
  have "visibleEnd (onScroll 150 [] (updateItemTops (?c\<lparr>itemHeights := array_of [50, 80, 20]\<rparr>)))
          = int (length (items ?c))"
    and "visibleStart (onScroll 150 [] (updateItemTops (?c\<lparr>itemHeights := array_of [50, 80, 20]\<rparr>)))
          = max 0 (int (length (items ?c)) - buffer ?c)"
    by blast+
  moreover from at_total dbl
  have "visibleEnd (onScroll (sum_list [50, 80, 20]) []
          (updateItemTops (?c\<lparr>itemHeights := array_of [50, 80, 20]\<rparr>)))
          = int (length (items ?c))"
    by blast
  ultimately show ?thesis using h1 h3 h4 h5 h6 by simp
qed

text \<open>
  Claim C6. After \<open>onScroll\<close> with a buffer that is not negative,
  \<open>0 \<le> visibleStart \<le> visibleEnd \<le> items.length\<close>. Nothing is asked of the scroll
  position or of the offset table.
\<close>

theorem C6_visible_range_valid:
  assumes "0 \<le> buffer c"
  shows "0 \<le> visibleStart (onScroll scrollTop els c)
       \<and> visibleStart (onScroll scrollTop els c) \<le> visibleEnd (onScroll scrollTop els c)
       \<and> visibleEnd (onScroll scrollTop els c) \<le> int (length (items (onScroll scrollTop els c)))"
proof -
  let ?start = "start_loop c scrollTop 0"
  let ?end = "end_loop c (js_add (Num scrollTop) (Num (viewportHeight c))) ?start"
  have "?start \<le> length (items c)" by (rule start_loop_le) simp
  then have "?end \<le> length (items c)" by (rule end_loop_le)
  moreover have "?start \<le> ?end" by (rule end_loop_ge)
  ultimately show ?thesis
    using assms by (simp add: visibleStart_onScroll visibleEnd_onScroll)
qed

theorem C6_visible_range_valid_witness:
  "0 \<le> buffer (ngOnChanges ''abcd'' ((new_component ())\<lparr>buffer := 1, viewportHeight := 40\<rparr>))
   \<and> visibleStart (onScroll 120 [] (ngOnChanges ''abcd'' ((new_component ())\<lparr>buffer := 1, viewportHeight := 40\<rparr>))) = 1
   \<and> visibleEnd (onScroll 120 [] (ngOnChanges ''abcd'' ((new_component ())\<lparr>buffer := 1, viewportHeight := 40\<rparr>))) = 4
   \<and> length (items (onScroll 120 [] (ngOnChanges ''abcd'' ((new_component ())\<lparr>buffer := 1, viewportHeight := 40\<rparr>)))) = 4"
proof -
  let ?c = "ngOnChanges ''abcd'' ((new_component ())\<lparr>buffer := 1, viewportHeight := 40\<rparr>)"
  have b: "0 \<le> buffer ?c" by simp
  have tops: "itemTops ?c = [Num 0, Num 50, Num 100, Num 150]"
    by (simp add: four_items_tops)
  have start: "start_loop ?c 120 0 = 2"
    by (simp add: start_loop.simps getItemTop_def tops)
  have "end_loop ?c (js_add (Num 120) (Num 40)) 2 = 4"
    by (simp add: end_loop.simps getItemTop_def tops)
  then have "visibleStart (onScroll 120 [] ?c) = 1" and "visibleEnd (onScroll 120 [] ?c) = 4"
    by (simp_all add: visibleStart_onScroll visibleEnd_onScroll start)
  then show ?thesis
    using b C6_visible_range_valid [OF b, of 120 "[]"] by simp
qed

text \<open>
  Claim C7 says that \<open>getItemTop\<close> returns 0 outside the table and the stored offset
  inside it. The first half holds. The second fails for a stored \<open>NaN\<close>, which
  \<open>|| 0\<close> turns into 0: in the history \<open>list_shrunk_while_scrolled\<close> the height store
  is \<open>[50, hole, 20]\<close>, so the offsets are \<open>[0, 50, NaN]\<close>, and index 2 is in range.
\<close>

theorem C7_stored_NaN_counterexample:
  "(0::int) \<le> 2 \<and> (2::int) < int (length (itemTops list_shrunk_while_scrolled))
   \<and> itemTops list_shrunk_while_scrolled ! nat 2 = NaN
   \<and> getItemTop list_shrunk_while_scrolled 2 = Num 0
   \<and> getItemTop list_shrunk_while_scrolled 2 \<noteq> itemTops list_shrunk_while_scrolled ! nat 2"
  by (simp add: getItemTop_def list_shrunk_while_scrolled_fields)

text \<open>
  Claim C7, amended. Outside the table \<open>getItemTop\<close> returns 0; inside it, it returns
  the stored offset when that is a number or an infinity, and 0 when the stored value
  is \<open>NaN\<close>.
\<close>

theorem C7_getItemTop_lookup:
  "(index < 0 \<or> int (length (itemTops c)) \<le> index \<longrightarrow> getItemTop c index = Num 0)
   \<and> (0 \<le> index \<and> index < int (length (itemTops c)) \<longrightarrow>
        (itemTops c ! nat index \<noteq> NaN \<longrightarrow> getItemTop c index = itemTops c ! nat index)
      \<and> (itemTops c ! nat index = NaN \<longrightarrow> getItemTop c index = Num 0))"
proof -
  have "or_zero (Some t) = t" if "t \<noteq> NaN" for t
    using that by (cases t) auto
  then show ?thesis by (auto simp: getItemTop_def)
qed

theorem C7_getItemTop_lookup_witness:
  "length (itemTops list_shrunk_while_scrolled) = 3
   \<and> getItemTop list_shrunk_while_scrolled (- 1) = Num 0
   \<and> getItemTop list_shrunk_while_scrolled 3 = Num 0
   \<and> itemTops list_shrunk_while_scrolled ! nat 1 = Num 50
   \<and> getItemTop list_shrunk_while_scrolled 1 = Num 50
   \<and> itemTops list_shrunk_while_scrolled ! nat 2 = NaN
   \<and> getItemTop list_shrunk_while_scrolled 2 = Num 0"
proof -
  have len: "length (itemTops list_shrunk_while_scrolled) = 3"
    and one: "itemTops list_shrunk_while_scrolled ! nat 1 = Num 50"
    and two: "itemTops list_shrunk_while_scrolled ! nat 2 = NaN"
    by (simp_all add: list_shrunk_while_scrolled_fields)
  from C7_getItemTop_lookup [of "- 1" list_shrunk_while_scrolled]
  have a: "getItemTop list_shrunk_while_scrolled (- 1) = Num 0" by simp
  from C7_getItemTop_lookup [of 3 list_shrunk_while_scrolled] len
  have b: "getItemTop list_shrunk_while_scrolled 3 = Num 0" by simp
  from C7_getItemTop_lookup [of 1 list_shrunk_while_scrolled] len one
  have c: "getItemTop list_shrunk_while_scrolled 1 = Num 50" by simp
  from C7_getItemTop_lookup [of 2 list_shrunk_while_scrolled] len two
  have d: "getItemTop list_shrunk_while_scrolled 2 = Num 0" by simp
  from len a b one c two d show ?thesis by simp
qed

text \<open>
  Claim C8. Let a batch of measurements differ from the stored heights in at most one
  element, the one for item \<open>k\<close>, which is an item of the store. After
  \<open>measureItemHeights\<close>, which rebuilds the offsets, the store differs from the old one
  at \<open>k\<close> only and has the same length; compared with the offsets built from the old
  store, \<open>getItemTop\<close> is unchanged at every index up to and including \<open>k\<close>; and
  the offset after \<open>k\<close> is the binary64 sum of the offset at \<open>k\<close> and the measured
  height. In particular, with two or more items estimated at 50 and item 0 measured as
  80, \<open>getItemTop(1)\<close> goes from 50 to 80 and \<open>getItemTop(0)\<close> stays 0.
\<close>

theorem C8_single_correction_frame:
  "(idxk < length els \<and> k = visibleStart c + int idxk
      \<and> 0 \<le> k \<and> k < int (length (elems (itemHeights c)))
      \<and> (\<forall>idx. idx < length els \<and> idx \<noteq> idxk \<longrightarrow>
            arr_get (itemHeights c) (visibleStart c + int idx) = Some (els ! idx)) \<longrightarrow>
        (\<forall>j. j \<noteq> k \<longrightarrow>
            arr_get (itemHeights (measureItemHeights els c)) j = arr_get (itemHeights c) j)
      \<and> arr_get (itemHeights (measureItemHeights els c)) k = Some (els ! idxk)
      \<and> length (elems (itemHeights (measureItemHeights els c))) = length (elems (itemHeights c))
      \<and> length (itemTops (measureItemHeights els c)) = length (itemTops (updateItemTops c))
      \<and> (\<forall>i. i \<le> k \<longrightarrow>
            getItemTop (measureItemHeights els c) i = getItemTop (updateItemTops c) i)
      \<and> (k + 1 < int (length (elems (itemHeights c))) \<longrightarrow>
            itemTops (measureItemHeights els c) ! nat (k + 1)
              = js_add (itemTops (measureItemHeights els c) ! nat k) (Num (els ! idxk))))
   \<and> (2 \<le> length its \<longrightarrow>
        getItemTop (initializeHeights
          (base\<lparr>items := its, initialItemHeight := 50, visibleStart := 0\<rparr>)) 0 = Num 0
      \<and> getItemTop (initializeHeights
          (base\<lparr>items := its, initialItemHeight := 50, visibleStart := 0\<rparr>)) 1 = Num 50
      \<and> getItemTop (measureItemHeights [80] (initializeHeights
          (base\<lparr>items := its, initialItemHeight := 50, visibleStart := 0\<rparr>))) 0 = Num 0
      \<and> getItemTop (measureItemHeights [80] (initializeHeights
          (base\<lparr>items := its, initialItemHeight := 50, visibleStart := 0\<rparr>))) 1 = Num 80)"
proof (intro conjI impI)
  assume "idxk < length els \<and> k = visibleStart c + int idxk
      \<and> 0 \<le> k \<and> k < int (length (elems (itemHeights c)))
      \<and> (\<forall>idx. idx < length els \<and> idx \<noteq> idxk \<longrightarrow>
            arr_get (itemHeights c) (visibleStart c + int idx) = Some (els ! idx))"
  then have idxk: "idxk < length els" and k: "k = visibleStart c + int idxk"
    and k0: "0 \<le> k" and kn: "k < int (length (elems (itemHeights c)))"
    and others: "\<And>idx. idx < length els \<Longrightarrow> idx \<noteq> idxk \<Longrightarrow>
                   arr_get (itemHeights c) (visibleStart c + int idx) = Some (els ! idx)"
    by simp_all
  note frame = single_correction_frame [OF idxk k k0 kn others]
  show "\<forall>j. j \<noteq> k \<longrightarrow>
          arr_get (itemHeights (measureItemHeights els c)) j = arr_get (itemHeights c) j"
    by (simp add: frame(1))
  show "arr_get (itemHeights (measureItemHeights els c)) k = Some (els ! idxk)"
    by (simp add: frame(1))
  show "length (elems (itemHeights (measureItemHeights els c))) = length (elems (itemHeights c))"
    by (rule frame(2))
  then show "length (itemTops (measureItemHeights els c)) = length (itemTops (updateItemTops c))"
    by (simp add: measureItemHeights_def)
  show "\<forall>i. i \<le> k \<longrightarrow>
          getItemTop (measureItemHeights els c) i = getItemTop (updateItemTops c) i"
    using single_correction_offsets_before [OF idxk k k0 kn others] by blast
  show "itemTops (measureItemHeights els c) ! nat (k + 1)
          = js_add (itemTops (measureItemHeights els c) ! nat k) (Num (els ! idxk))"
    if next_item: "k + 1 < int (length (elems (itemHeights c)))"
  proof -
    let ?d = "fold measure_element (enumerate 0 els) c"
    have E: "elems (itemHeights ?d) = (elems (itemHeights c))[nat k := Some (els ! idxk)]"
      using frame(3) by (simp add: measureItemHeights_def)
    have "Suc (nat k) < length (elems (itemHeights ?d))" using next_item k0 by (simp add: E)
    from nth_itemTops_step [OF this]
    have "itemTops (updateItemTops ?d) ! Suc (nat k)
            = add_height (itemTops (updateItemTops ?d) ! nat k) (Some (els ! idxk))"
      using kn k0 by (simp add: E)
    then show ?thesis using k0 by (simp add: measureItemHeights_def nat_add_distrib)
  qed
qed (simp_all add: estimate_50_measured_80)

theorem C8_single_correction_frame_witness:
  "visibleStart (ngOnChanges ''abc'' (new_component ())) = 0
   \<and> length (elems (itemHeights (ngOnChanges ''abc'' (new_component ())))) = 3
   \<and> arr_get (itemHeights (ngOnChanges ''abc'' (new_component ()))) 1 = Some 50
   \<and> arr_get (itemHeights (measureItemHeights [80, 50] (ngOnChanges ''abc'' (new_component ())))) 0 = Some 80
   \<and> arr_get (itemHeights (measureItemHeights [80, 50] (ngOnChanges ''abc'' (new_component ())))) 1 = Some 50
   \<and> getItemTop (measureItemHeights [80, 50] (ngOnChanges ''abc'' (new_component ()))) 0 = Num 0
   \<and> itemTops (measureItemHeights [80, 50] (ngOnChanges ''abc'' (new_component ()))) ! nat 1 = Num 80
   \<and> getItemTop (measureItemHeights [80] (initializeHeights
          ((new_component ())\<lparr>items := ''abc'', initialItemHeight := 50, visibleStart := 0\<rparr>))) 1 = Num 80"
proof -
  let ?c = "ngOnChanges ''abc'' (new_component ())"
  have vs: "visibleStart ?c = 0" and len: "length (elems (itemHeights ?c)) = 3"
    and h1: "arr_get (itemHeights ?c) 1 = Some 50"
    by (simp_all add: arr_get_def)
  have top0: "getItemTop (updateItemTops ?c) 0 = Num 0"
    by (simp add: getItemTop_def nth_itemTops_updateItemTops)
  have others: "\<forall>idx. idx < length [80, 50 :: real] \<and> idx \<noteq> 0 \<longrightarrow>
      arr_get (itemHeights ?c) (visibleStart ?c + int idx) = Some ([80, 50] ! idx)"
  proof (intro allI impI)
    fix idx assume "idx < length [80, 50 :: real] \<and> idx \<noteq> 0"
    then have "idx = 1" by auto
    then show "arr_get (itemHeights ?c) (visibleStart ?c + int idx) = Some ([80, 50] ! idx)"
      using vs h1 by simp
  qed
  have hyp: "0 < length [80, 50 :: real] \<and> (0::int) = visibleStart ?c + int 0
      \<and> (0::int) \<le> 0 \<and> (0::int) < int (length (elems (itemHeights ?c)))
      \<and> (\<forall>idx. idx < length [80, 50 :: real] \<and> idx \<noteq> 0 \<longrightarrow>
            arr_get (itemHeights ?c) (visibleStart ?c + int idx) = Some ([80, 50] ! idx))"
    using vs len others by simp
  note C8 = C8_single_correction_frame
    [where idxk = 0 and els = "[80, 50]" and k = 0 and c = ?c and its = "''abc''"
      and base = "new_component ()"]
  from C8 hyp
  have a: "\<forall>j. j \<noteq> 0 \<longrightarrow>
            arr_get (itemHeights (measureItemHeights [80, 50] ?c)) j = arr_get (itemHeights ?c) j"
    and b: "arr_get (itemHeights (measureItemHeights [80, 50] ?c)) 0 = Some ([80, 50] ! 0)"
    and c: "\<forall>i. i \<le> 0 \<longrightarrow>
            getItemTop (measureItemHeights [80, 50] ?c) i = getItemTop (updateItemTops ?c) i"
    and e: "length (elems (itemHeights (measureItemHeights [80, 50] ?c)))
              = length (elems (itemHeights ?c))"
    and d: "0 + 1 < int (length (elems (itemHeights ?c))) \<longrightarrow>
            itemTops (measureItemHeights [80, 50] ?c) ! nat (0 + 1)
              = js_add (itemTops (measureItemHeights [80, 50] ?c) ! nat 0) (Num ([80, 50] ! 0))"
    by blast+
  from a h1 have a1: "arr_get (itemHeights (measureItemHeights [80, 50] ?c)) 1 = Some 50" by simp
  from c top0 have c0: "getItemTop (measureItemHeights [80, 50] ?c) 0 = Num 0" by simp
  have "itemTops (measureItemHeights [80, 50] ?c) ! nat 0 = Num 0"
    using e len by (simp add: itemTops_measureItemHeights)
  with d len have d1: "itemTops (measureItemHeights [80, 50] ?c) ! nat 1 = Num 80" by simp
  from C8 have "getItemTop (measureItemHeights [80] (initializeHeights
          ((new_component ())\<lparr>items := ''abc'', initialItemHeight := 50, visibleStart := 0\<rparr>))) 1 = Num 80"
    by simp
  with vs len h1 a1 b c0 d1 show ?thesis by simp
qed

text \<open>
  Claim C9. For a non-empty list and a scroll position strictly greater than the top
  offset of the last item, the first loop of \<open>onScroll\<close> ends with
  \<open>start = items.length\<close>: its last test reads \<open>getItemTop(items.length)\<close>, which is
  out of range and so 0. With a buffer of 0 the resulting range is
  \<open>(items.length, items.length)\<close>, also while the scroll position is still inside the
  last item. Heights need only be non-negative for this.
\<close>

theorem C9_start_scan_saturates:
  fixes H :: "real list"
  assumes "H \<noteq> []" and "\<forall>h\<in>set H. 0 \<le> h" and "length (items c) = length H"
    and "itemTops (updateItemTops (c\<lparr>itemHeights := array_of H\<rparr>)) ! (length H - 1) = Num lastTop"
    and "lastTop < scrollTop"
  shows "start_loop (updateItemTops (c\<lparr>itemHeights := array_of H\<rparr>)) scrollTop 0 = length H
       \<and> (buffer c = 0 \<longrightarrow>
            visibleStart (onScroll scrollTop els (updateItemTops (c\<lparr>itemHeights := array_of H\<rparr>)))
              = int (length H)
          \<and> visibleEnd (onScroll scrollTop els (updateItemTops (c\<lparr>itemHeights := array_of H\<rparr>)))
              = int (length H))"
proof -
  let ?c = "updateItemTops (c\<lparr>itemHeights := array_of H\<rparr>)"
  have start: "start_loop ?c scrollTop 0 = length H"
    using assms by (intro start_loop_past_last_top)
  have "end_loop ?c (js_add (Num scrollTop) (Num (viewportHeight ?c))) (length H) = length H"
    using assms(3) by (simp add: end_loop_exit)
  with start show ?thesis
    using assms(3) by (simp add: visibleStart_onScroll visibleEnd_onScroll)
qed

theorem C9_start_scan_saturates_witness:
  "[50, 80, 20] \<noteq> ([] :: real list) \<and> list_all (\<lambda>h. 0 \<le> h) [50, 80, 20 :: real]
   \<and> length (items ((new_component ())\<lparr>items := ''abc'', buffer := 0\<rparr>)) = length [50, 80, 20 :: real]
   \<and> itemTops (updateItemTops ((new_component ())\<lparr>items := ''abc'', buffer := 0, itemHeights := array_of [50, 80, 20]\<rparr>)) ! (length [50, 80, 20 :: real] - 1) = Num 130
   \<and> (130 :: real) < 140
   \<and> totalContentHeight (updateItemTops ((new_component ())\<lparr>items := ''abc'', buffer := 0, itemHeights := array_of [50, 80, 20]\<rparr>)) = Num 150
   \<and> start_loop (updateItemTops ((new_component ())\<lparr>items := ''abc'', buffer := 0, itemHeights := array_of [50, 80, 20]\<rparr>)) 140 0 = 3
   \<and> visibleStart (onScroll 140 [] (updateItemTops ((new_component ())\<lparr>items := ''abc'', buffer := 0, itemHeights := array_of [50, 80, 20]\<rparr>))) = 3
   \<and> visibleEnd (onScroll 140 [] (updateItemTops ((new_component ())\<lparr>items := ''abc'', buffer := 0, itemHeights := array_of [50, 80, 20]\<rparr>))) = 3"
proof -
  let ?c = "(new_component ())\<lparr>items := ''abc'', buffer := 0\<rparr> :: char component"
  have h1: "[50, 80, 20] \<noteq> ([] :: real list)" by simp
  have h2: "\<forall>h\<in>set [50, 80, 20 :: real]. 0 \<le> h" by simp
  have h3: "length (items ?c) = length [50, 80, 20 :: real]" by simp
  have h4: "itemTops (updateItemTops (?c\<lparr>itemHeights := array_of [50, 80, 20]\<rparr>))
              ! (length [50, 80, 20 :: real] - 1) = Num 130"
    by (simp add: nth_itemTops_updateItemTops)
  have h5: "(130 :: real) < 140" by simp
  have b: "buffer ?c = 0" by simp
  have t: "totalContentHeight (updateItemTops (?c\<lparr>itemHeights := array_of [50, 80, 20]\<rparr>)) = Num 150"
    by (simp add: totalContentHeight_updateItemTops)
  show ?thesis
    using h1 h2 h3 h4 h5 b t C9_start_scan_saturates [OF h1 h2 h3 h4 h5, of "[]"]
    by simp
qed

text \<open>
  Claim C10. When every index \<open>visibleStart + idx\<close> of a batch lies inside the height
  store, \<open>measureItemHeights\<close> keeps the length of the store. When the last index of a
  non-empty batch lies at or past the end of a store that has one height per item, the
  store grows to that index plus one, and so do the offsets: both are then longer than
  the list of items.
\<close>

theorem C10_height_store_length:
  "((\<forall>idx. idx < length els \<longrightarrow>
        0 \<le> visibleStart c + int idx
      \<and> visibleStart c + int idx < int (length (elems (itemHeights c)))) \<longrightarrow>
      length (elems (itemHeights (measureItemHeights els c))) = length (elems (itemHeights c)))
   \<and> (els \<noteq> [] \<and> int (length (elems (itemHeights c))) < visibleStart c + int (length els)
       \<and> length (elems (itemHeights c)) = length (items c) \<longrightarrow>
        length (elems (itemHeights (measureItemHeights els c)))
          = nat (visibleStart c + int (length els))
      \<and> length (items (measureItemHeights els c))
          < length (elems (itemHeights (measureItemHeights els c)))
      \<and> length (items (measureItemHeights els c))
          < length (itemTops (measureItemHeights els c)))"
proof -
  have len: "length (elems (itemHeights (measureItemHeights els c))) =
     (if els = [] then length (elems (itemHeights c))
      else max (length (elems (itemHeights c))) (nat (visibleStart c + int (length els))))"
    by (simp add: measureItemHeights_def length_elems_fold_measure_element)
  have tops: "length (itemTops (measureItemHeights els c))
      = length (elems (itemHeights (measureItemHeights els c)))"
    by (simp add: measureItemHeights_def)
  have inside: "length (elems (itemHeights (measureItemHeights els c))) = length (elems (itemHeights c))"
    if r: "\<forall>idx. idx < length els \<longrightarrow>
        0 \<le> visibleStart c + int idx
      \<and> visibleStart c + int idx < int (length (elems (itemHeights c)))"
  proof (cases "els = []")
    case True
    then show ?thesis using len by simp
  next
    case False
    then have "length els - 1 < length els" by simp
    with r have "visibleStart c + int (length els - 1) < int (length (elems (itemHeights c)))"
      by blast
    then have "nat (visibleStart c + int (length els)) \<le> length (elems (itemHeights c))"
      using False by (simp add: of_nat_diff Suc_leI)
    then show ?thesis using len False by simp
  qed
  show ?thesis using inside len tops by auto
qed

theorem C10_height_store_length_witness:
  "length (elems (itemHeights (ngOnChanges ''abc'' (new_component ())))) = 3
   \<and> visibleStart (ngOnChanges ''abc'' (new_component ())) = 0
   \<and> length (elems (itemHeights (measureItemHeights [40, 60] (ngOnChanges ''abc'' (new_component ()))))) = 3
   \<and> length (elems (itemHeights (tall_last_item\<lparr>visibleStart := 2\<rparr>))) = 2
   \<and> length (items (tall_last_item\<lparr>visibleStart := 2\<rparr>)) = 2
   \<and> length (elems (itemHeights (measureItemHeights [50, 500] (tall_last_item\<lparr>visibleStart := 2\<rparr>)))) = 4
   \<and> length (items (measureItemHeights [50, 500] (tall_last_item\<lparr>visibleStart := 2\<rparr>))) = 2
   \<and> length (itemTops (measureItemHeights [50, 500] (tall_last_item\<lparr>visibleStart := 2\<rparr>))) = 4"
proof -
  let ?c = "ngOnChanges ''abc'' (new_component ())"
  let ?d = "tall_last_item\<lparr>visibleStart := 2\<rparr>"
  have len: "length (elems (itemHeights ?c)) = 3" and vs: "visibleStart ?c = 0" by simp_all
  then have inside: "\<forall>idx. idx < length [40, 60 :: real] \<longrightarrow>
        0 \<le> visibleStart ?c + int idx
      \<and> visibleStart ?c + int idx < int (length (elems (itemHeights ?c)))" by simp
  from C10_height_store_length [of "[40, 60]" ?c] inside len
  have kept: "length (elems (itemHeights (measureItemHeights [40, 60] ?c))) = 3" by simp
  have dlen: "length (elems (itemHeights ?d)) = 2" and ditems: "length (items ?d) = 2"
    and dvs: "visibleStart ?d = 2" by (simp_all add: tall_last_item_fields)
  then have past: "[50, 500] \<noteq> ([] :: real list)
      \<and> int (length (elems (itemHeights ?d))) < visibleStart ?d + int (length [50, 500 :: real])
      \<and> length (elems (itemHeights ?d)) = length (items ?d)" by simp
  from C10_height_store_length [of "[50, 500]" ?d] past dvs
  have grown: "length (elems (itemHeights (measureItemHeights [50, 500] ?d))) = 4"
    by simp
  then have "length (itemTops (measureItemHeights [50, 500] ?d)) = 4"
    by (simp add: measureItemHeights_def)
  then show ?thesis using len vs kept dlen ditems grown by simp
qed

end
